theory Spec2Isabelle
  imports Complex_Main "HOL-Library.Log_Nat" "HOL-Library.Multiset" "HOL-Library.Sublist"
    "HOL-Library.AList"
begin

section \<open>Python values the script computes with\<close>

text \<open>
  A raised Python exception. The three transforms guard their bodies with
  \<^verbatim>\<open>except Exception\<close>, which catches every instance of \<^verbatim>\<open>Exception\<close> and lets the
  remaining \<^verbatim>\<open>BaseException\<close>s (\<^verbatim>\<open>KeyboardInterrupt\<close>, \<^verbatim>\<open>SystemExit\<close>) pass; the
  two constructors keep the classes apart. The string is \<^verbatim>\<open>str(e)\<close>.
\<close>

datatype exn = Exception string | BaseException string

text \<open>\<^verbatim>\<open>try: body  except Exception as e: print(...); return handler\<close>\<close>

definition except_Exception :: "exn + 'a \<Rightarrow> 'a \<Rightarrow> exn + 'a" where
  "except_Exception body handler =
     (case body of
        Inr v \<Rightarrow> Inr v
      | Inl (Exception msg) \<Rightarrow> Inr handler
      | Inl (BaseException msg) \<Rightarrow> Inl (BaseException msg))"

subsection \<open>Double-precision arithmetic\<close>

text \<open>
  \<^verbatim>\<open>max_dimension / w\<close> is Python's true division of two ints and \<^verbatim>\<open>h * (...)\<close> an
  int times a float: each is the exact result rounded to the nearest binary64 number, ties
  to even. The model works on the rationals and rounds a value to 53 significant bits; it
  covers the normal range of binary64 (no overflow, no subnormals), which holds every
  value the script computes from image dimensions and file sizes.
\<close>

definition pow2 :: "int \<Rightarrow> rat" where
  "pow2 e = (if 0 \<le> e then 2 ^ nat e else 1 / 2 ^ nat (- e))"

definition round_half_even :: "rat \<Rightarrow> int" where
  "round_half_even x =
     (let f = \<lfloor>x\<rfloor>; d = x - of_int f
      in if d < 1 / 2 then f else if 1 / 2 < d then f + 1 else if even f then f else f + 1)"

text \<open>The binary exponent \<open>e\<close> of a positive rational: \<open>2 ^ e \<le> x < 2 ^ (e + 1)\<close>.\<close>

definition float_exponent :: "rat \<Rightarrow> int" where
  "float_exponent x =
     (if 1 \<le> x then bitlen \<lfloor>x\<rfloor> - 1 else - bitlen (\<lceil>1 / x\<rceil> - 1))"

definition fl :: "rat \<Rightarrow> rat" where
  "fl x =
     (if x = 0 then 0
      else let u = pow2 (float_exponent \<bar>x\<bar> - 52)
           in of_int (round_half_even (x / u)) * u)"

text \<open>
  \<^verbatim>\<open>a / b\<close> on ints, \<^verbatim>\<open>n * x\<close> on an int and a float, \<^verbatim>\<open>int(x)\<close> on a float, and
  the float operators \<^verbatim>\<open>+\<close>, \<^verbatim>\<open>-\<close>, \<^verbatim>\<open>*\<close>, \<^verbatim>\<open>/\<close> of the size report.
\<close>

definition truediv :: "int \<Rightarrow> int \<Rightarrow> rat" where
  "truediv a b = fl (of_int a / of_int b)"

definition fmul :: "int \<Rightarrow> rat \<Rightarrow> rat" where
  "fmul n x = fl (of_int n * x)"

definition int_of_float :: "rat \<Rightarrow> int" where
  "int_of_float x = (if 0 \<le> x then \<lfloor>x\<rfloor> else \<lceil>x\<rceil>)"

definition fadd :: "rat \<Rightarrow> rat \<Rightarrow> rat" where
  "fadd x y = fl (x + y)"

definition fsub :: "rat \<Rightarrow> rat \<Rightarrow> rat" where
  "fsub x y = fl (x - y)"

definition fmulf :: "rat \<Rightarrow> rat \<Rightarrow> rat" where
  "fmulf x y = fl (x * y)"

definition fdiv :: "rat \<Rightarrow> rat \<Rightarrow> rat" where
  "fdiv x y = fl (x / y)"

section \<open>Images and codecs\<close>

text \<open>
  Of a Pillow image the script reads \<^verbatim>\<open>mode\<close> and \<^verbatim>\<open>size\<close>; of a Wand image it sets
  \<^verbatim>\<open>format\<close> and \<^verbatim>\<open>compression_quality\<close> and reads and sets \<^verbatim>\<open>alpha_channel\<close>.
\<close>

record image =
  img_mode :: string
  img_size :: "int \<times> int"

record wand_image =
  wand_format :: string
  compression_quality :: int
  alpha_channel :: bool

text \<open>
  The decoders and encoders are outside the script. Each is a parameter that either raises
  or returns: the decoded image of a file, or the number of bytes an encoder writes.
\<close>

record codecs =
  Image_open :: "string \<Rightarrow> exn + image"
  png_encode :: "image \<Rightarrow> exn + nat"
  jpeg_encode :: "image \<Rightarrow> int \<Rightarrow> exn + nat"
  WandImage_open :: "string \<Rightarrow> exn + wand_image"
  wand_encode :: "wand_image \<Rightarrow> exn + nat"

text \<open>
  \<^verbatim>\<open>img.convert('RGB')\<close> returns a copy in the requested mode and \<^verbatim>\<open>img.resize(size, ...)\<close>
  a copy of the requested size; Pillow's resampler refuses a size with a side below 1.
\<close>

definition convert :: "image \<Rightarrow> string \<Rightarrow> image" where
  "convert img m = img\<lparr>img_mode := m\<rparr>"

definition resize :: "image \<Rightarrow> int \<times> int \<Rightarrow> exn + image" where
  "resize img sz =
     (if fst sz < 1 \<or> snd sz < 1 then Inl (Exception ''ValueError'')
      else Inr (img\<lparr>img_size := sz\<rparr>))"

section \<open>Paths and the file system\<close>

subsection \<open>pathlib on POSIX\<close>

text \<open>
  A path is the tuple \<^verbatim>\<open>PurePosixPath.parts\<close>: the components in order, an absolute path
  starting with its root \<^verbatim>\<open>'/'\<close> (or \<^verbatim>\<open>'//'\<close>).
\<close>

type_synonym path = "string list"

fun split_on :: "char \<Rightarrow> string \<Rightarrow> string list" where
  "split_on c [] = [[]]"
| "split_on c (x # xs) =
     (let r = split_on c xs in if x = c then [] # r else (x # hd r) # tl r)"

fun join_on :: "string \<Rightarrow> string list \<Rightarrow> string" where
  "join_on sep [] = []"
| "join_on sep [x] = x"
| "join_on sep (x # y # ys) = x @ sep @ join_on sep (y # ys)"

definition Path :: "string \<Rightarrow> path" where
  "Path s =
     (let rt = (if take 2 s = ''//'' \<and> take 3 s \<noteq> ''///'' then ''//''
                else if take 1 s = ''/'' then ''/'' else []);
          tail = filter (\<lambda>x. x \<noteq> [] \<and> x \<noteq> ''.'') (split_on CHR ''/'' s)
      in if rt = [] then tail else rt # tail)"

definition anchor :: "path \<Rightarrow> string" where
  "anchor p = (case p of [] \<Rightarrow> [] | x # xs \<Rightarrow> if x = ''/'' \<or> x = ''//'' then x else [])"

definition tail_of :: "path \<Rightarrow> string list" where
  "tail_of p = (if anchor p = [] then p else tl p)"

definition str_of :: "path \<Rightarrow> string" where
  "str_of p = (if p = [] then ''.'' else anchor p @ join_on ''/'' (tail_of p))"

definition path_name :: "path \<Rightarrow> string" where
  "path_name p = (if tail_of p = [] then [] else last p)"

definition path_parent :: "path \<Rightarrow> path" where
  "path_parent p = (if tail_of p = [] then p else butlast p)"

text \<open>\<^verbatim>\<open>s.rfind(c)\<close>: the highest index of \<open>c\<close>, or \<open>-1\<close>.\<close>

fun rfind :: "string \<Rightarrow> char \<Rightarrow> int" where
  "rfind [] c = - 1"
| "rfind (x # xs) c =
     (let r = rfind xs c in if 0 \<le> r then r + 1 else if x = c then 0 else - 1)"

definition name_suffix :: "string \<Rightarrow> string" where
  "name_suffix nm =
     (let i = rfind nm CHR ''.''
      in if 0 < i \<and> i < int (length nm) - 1 then drop (nat i) nm else [])"

definition with_suffix :: "path \<Rightarrow> string \<Rightarrow> exn + path" where
  "with_suffix p sfx =
     (if CHR ''/'' \<in> set sfx then Inl (Exception ''ValueError'')
      else if (sfx \<noteq> [] \<and> take 1 sfx \<noteq> ''.'') \<or> sfx = ''.'' then Inl (Exception ''ValueError'')
      else let nm = path_name p in
        if nm = [] then Inl (Exception ''ValueError'')
        else let old = name_suffix nm;
                 nm' = (if old = [] then nm @ sfx
                        else take (length nm - length old) nm @ sfx)
             in Inr (butlast p @ [nm']))"

definition relative_to :: "path \<Rightarrow> path \<Rightarrow> exn + path" where
  "relative_to p other =
     (if anchor p = anchor other \<and> prefix other p then Inr (drop (length other) p)
      else Inl (Exception ''ValueError''))"

definition joinpath :: "path \<Rightarrow> path \<Rightarrow> path" where
  "joinpath p q = (if anchor q \<noteq> [] then q else p @ q)"

subsection \<open>The file system and the encodes performed\<close>

datatype kind = Dir | File

text \<open>
  The state the script acts on: the entries that exist, in the order a directory scan
  meets them, the byte size \<^verbatim>\<open>os.path.getsize\<close> reports for a path, and the JPEG encodes
  performed so far (image and quality), oldest first.
\<close>

record world =
  entries :: "(path \<times> kind) list"
  st_size :: "path \<Rightarrow> nat"
  jpeg_saves :: "(image \<times> int) list"

text \<open>The root and the current directory always exist.\<close>

definition stat :: "world \<Rightarrow> path \<Rightarrow> kind option" where
  "stat w p = (if tail_of p = [] then Some Dir else map_of (entries w) p)"

definition getsize :: "world \<Rightarrow> path \<Rightarrow> exn + nat" where
  "getsize w p =
     (case stat w p of None \<Rightarrow> Inl (Exception ''FileNotFoundError'') | Some k \<Rightarrow> Inr (st_size w p))"

definition os_mkdir :: "world \<Rightarrow> path \<Rightarrow> exn + world" where
  "os_mkdir w p =
     (case stat w p of
        Some k \<Rightarrow> Inl (Exception ''FileExistsError'')
      | None \<Rightarrow>
          (case stat w (path_parent p) of
             None \<Rightarrow> Inl (Exception ''FileNotFoundError'')
           | Some File \<Rightarrow> Inl (Exception ''NotADirectoryError'')
           | Some Dir \<Rightarrow> Inr (w\<lparr>entries := entries w @ [(p, Dir)]\<rparr>)))"

text \<open>\<^verbatim>\<open>p.mkdir(parents=False, exist_ok=True)\<close>\<close>

definition mkdir_exist_ok :: "world \<Rightarrow> path \<Rightarrow> exn + world" where
  "mkdir_exist_ok w p =
     (case os_mkdir w p of
        Inr w' \<Rightarrow> Inr w'
      | Inl e \<Rightarrow>
          if e = Exception ''FileNotFoundError'' then Inl e
          else if stat w p = Some Dir then Inr w else Inl e)"

text \<open>\<^verbatim>\<open>p.mkdir(parents=True, exist_ok=True)\<close>\<close>

function mkdir_parents :: "world \<Rightarrow> path \<Rightarrow> exn + world" where
  "mkdir_parents w p =
     (case os_mkdir w p of
        Inr w' \<Rightarrow> Inr w'
      | Inl e \<Rightarrow>
          if e = Exception ''FileNotFoundError'' then
            (if path_parent p = p then Inl e
             else case mkdir_parents w (path_parent p) of
                    Inl e' \<Rightarrow> Inl e'
                  | Inr w' \<Rightarrow> mkdir_exist_ok w' p)
          else if stat w p = Some Dir then Inr w else Inl e)"
  by pat_completeness auto
termination
proof (relation "measure (\<lambda>(w, p). length p)")
  show "wf (measure (\<lambda>(w, p). length p))" by simp
next
  fix w :: world and p :: path and e :: exn
  assume "path_parent p \<noteq> p"
  then have "path_parent p = butlast p" and "p \<noteq> []"
    by (auto simp: path_parent_def tail_of_def anchor_def split: if_splits)
  then show "((w, path_parent p), (w, p)) \<in> measure (\<lambda>(w, p). length p)"
    by simp
qed

declare mkdir_parents.simps [simp del]

text \<open>
  \<^verbatim>\<open>Path(base).glob('**/*' + ext)\<close>: the entries below \<open>base\<close>, at any depth, whose name
  ends with \<open>ext\<close>. On POSIX the match is case-sensitive.
\<close>

definition glob_rec :: "world \<Rightarrow> path \<Rightarrow> string \<Rightarrow> path list" where
  "glob_rec w base ext =
     map fst (filter (\<lambda>(p, k). anchor p = anchor base \<and> strict_prefix base p \<and> suffix ext (last p))
                     (entries w))"

section \<open>The optimisation transform\<close>

subsection \<open>Downscaling (lines 40 to 49)\<close>

definition max_dimension :: int where
  "max_dimension = 4000"

text \<open>
  The size handed to \<^verbatim>\<open>img.resize\<close>, or \<open>None\<close> when the image is left as it is.
  In the branch taken the divisor is the longer side, which exceeds 4000, so the division
  never sees zero.
\<close>

definition resize_dims :: "int \<times> int \<Rightarrow> (int \<times> int) option" where
  "resize_dims sz =
     (case sz of (w, h) \<Rightarrow>
        if w > max_dimension \<or> h > max_dimension then
          (if w > h
           then Some (max_dimension, int_of_float (fmul h (truediv max_dimension w)))
           else Some (int_of_float (fmul w (truediv max_dimension h)), max_dimension))
        else None)"

subsection \<open>The size search (lines 51 to 57)\<close>

text \<open>
  \<^verbatim>\<open>img.save(output_path, 'JPEG', quality=quality, optimize=True)\<close>: the encode is recorded,
  and when the encoder returns, the file at \<open>output_path\<close> holds its bytes. A failure to
  open or write the file is counted with the encoder's.
\<close>

definition after_save :: "world \<Rightarrow> image \<Rightarrow> string \<Rightarrow> int \<Rightarrow> nat \<Rightarrow> world" where
  "after_save w img output_path quality n =
     w\<lparr>entries := AList.update (Path output_path) File (entries w),
       st_size := (st_size w)(Path output_path := n),
       jpeg_saves := jpeg_saves w @ [(img, quality)]\<rparr>"

definition save_jpeg :: "codecs \<Rightarrow> image \<Rightarrow> string \<Rightarrow> int \<Rightarrow> world \<Rightarrow> (exn + unit) \<times> world" where
  "save_jpeg env img output_path quality w =
     (case jpeg_encode env img quality of
        Inl e \<Rightarrow> (Inl e, w\<lparr>jpeg_saves := jpeg_saves w @ [(img, quality)]\<rparr>)
      | Inr n \<Rightarrow> (Inr (), after_save w img output_path quality n))"

function quality_loop ::
  "codecs \<Rightarrow> image \<Rightarrow> string \<Rightarrow> rat \<Rightarrow> int \<Rightarrow> world \<Rightarrow> (exn + bool \<times> rat) \<times> world" where
  "quality_loop env img output_path max_size_mb quality w =
     (case save_jpeg env img output_path quality w of
        (Inl e, w1) \<Rightarrow> (Inl e, w1)
      | (Inr u, w1) \<Rightarrow>
          (case getsize w1 (Path output_path) of
             Inl e \<Rightarrow> (Inl e, w1)
           | Inr n \<Rightarrow>
               let size_mb = truediv (int n) (1024 * 1024)
               in if size_mb \<le> max_size_mb \<or> quality < 30 then (Inr (True, size_mb), w1)
                  else quality_loop env img output_path max_size_mb (quality - 5) w1))"
  by pat_completeness auto
termination
  by (relation "measure (\<lambda>(env, img, output_path, max_size_mb, quality, w). nat quality)") auto

declare quality_loop.simps [simp del]

subsection \<open>optimize_png (lines 35 to 60)\<close>

text \<open>Lines 38 to 49: the mode conversion and the downscaling, before any encode.\<close>

definition prepare :: "image \<Rightarrow> exn + image" where
  "prepare img0 =
     (let img1 = (if img_mode img0 \<in> {''RGBA'', ''P''} then convert img0 ''RGB'' else img0)
      in case resize_dims (img_size img1) of
           None \<Rightarrow> Inr img1
         | Some sz \<Rightarrow> resize img1 sz)"

definition optimize_png_body ::
  "codecs \<Rightarrow> world \<Rightarrow> string \<Rightarrow> string \<Rightarrow> rat \<Rightarrow> (exn + bool \<times> rat) \<times> world" where
  "optimize_png_body env w input_path output_path max_size_mb =
     (case Image_open env input_path of
        Inl e \<Rightarrow> (Inl e, w)
      | Inr img0 \<Rightarrow>
          (case prepare img0 of
             Inl e \<Rightarrow> (Inl e, w)
           | Inr img \<Rightarrow> quality_loop env img output_path max_size_mb 90 w))"

definition optimize_png ::
  "codecs \<Rightarrow> world \<Rightarrow> string \<Rightarrow> string \<Rightarrow> rat \<Rightarrow> (exn + bool \<times> rat) \<times> world" where
  "optimize_png env w input_path output_path max_size_mb =
     (case optimize_png_body env w input_path output_path max_size_mb of
        (r, w') \<Rightarrow> (except_Exception r (False, 0), w'))"

section \<open>The conversion transforms (lines 13 to 33)\<close>

text \<open>
  Both write one PNG and return \<^verbatim>\<open>True\<close>; the file they write is not read again by the
  function, so only the encoder's outcome is modelled.
\<close>

definition convert_heic_to_png_body :: "codecs \<Rightarrow> string \<Rightarrow> string \<Rightarrow> exn + bool" where
  "convert_heic_to_png_body env input_path output_path =
     (case Image_open env input_path of
        Inl e \<Rightarrow> Inl e
      | Inr img \<Rightarrow> (case png_encode env img of Inl e \<Rightarrow> Inl e | Inr n \<Rightarrow> Inr True))"

definition convert_heic_to_png :: "codecs \<Rightarrow> string \<Rightarrow> string \<Rightarrow> exn + bool" where
  "convert_heic_to_png env input_path output_path =
     except_Exception (convert_heic_to_png_body env input_path output_path) False"



section \<open>Enumeration and task mapping\<close>


text \<open>
  The body of the two task loops (lines 72 to 75 and 103 to 106), which differ in the
  suffix only: the path relative to the input directory, its suffix replaced, joined
  under the output directory, and the parent directory made.
\<close>

definition map_task ::
  "world \<Rightarrow> path \<Rightarrow> string \<Rightarrow> string \<Rightarrow> string \<Rightarrow> exn + (string \<times> string) \<times> world" where
  "map_task w f input_dir output_dir ext =
     (case relative_to f (Path input_dir) of
        Inl e \<Rightarrow> Inl e
      | Inr rel \<Rightarrow>
          (case with_suffix rel ext of
             Inl e \<Rightarrow> Inl e
           | Inr rel' \<Rightarrow>
               let out = joinpath (Path output_dir) rel'
               in case mkdir_parents w (path_parent out) of
                    Inl e \<Rightarrow> Inl e
                  | Inr w' \<Rightarrow> Inr ((str_of f, str_of out), w')))"

fun conversion_tasks ::
  "world \<Rightarrow> path list \<Rightarrow> string \<Rightarrow> string \<Rightarrow> (string \<times> string) list
     \<Rightarrow> exn + (string \<times> string) list \<times> world" where
  "conversion_tasks w [] input_dir output_dir tasks = Inr (tasks, w)"
| "conversion_tasks w (f # files) input_dir output_dir tasks =
     (case map_task w f input_dir output_dir ''.png'' of
        Inl e \<Rightarrow> Inl e
      | Inr (t, w') \<Rightarrow> conversion_tasks w' files input_dir output_dir (tasks @ [t]))"

fun optimization_tasks ::
  "world \<Rightarrow> path list \<Rightarrow> string \<Rightarrow> string \<Rightarrow> (string \<times> string) list \<Rightarrow> rat
     \<Rightarrow> exn + (string \<times> string) list \<times> rat \<times> world" where
  "optimization_tasks w [] input_dir output_dir tasks total_original_size =
     Inr (tasks, total_original_size, w)"
| "optimization_tasks w (p # png_files) input_dir output_dir tasks total_original_size =
     (case map_task w p input_dir output_dir ''.jpg'' of
        Inl e \<Rightarrow> Inl e
      | Inr (t, w') \<Rightarrow>
          (case getsize w' p of
             Inl e \<Rightarrow> Inl e
           | Inr n \<Rightarrow>
               optimization_tasks w' png_files input_dir output_dir (tasks @ [t])
                 (fadd total_original_size (truediv (int n) (1024 * 1024)))))"

section \<open>The worker pool and the counters\<close>

text \<open>
  \<^verbatim>\<open>as_completed\<close> hands the futures over in the order the workers finish them, one future
  per task. The loops below run over the tasks in that order; \<^verbatim>\<open>future.result()\<close> returns
  what the transform returned or raises what it raised. The number of workers decides
  nothing but that order.
\<close>

fun conversion_pool ::
  "(string \<Rightarrow> string \<Rightarrow> exn + bool) \<Rightarrow> (string \<times> string) list \<Rightarrow> int \<times> int \<Rightarrow> exn + int \<times> int" where
  "conversion_pool func [] (success, fail) = Inr (success, fail)"
| "conversion_pool func ((i, out) # completed) (success, fail) =
     (case func i out of
        Inl e \<Rightarrow> Inl e
      | Inr r \<Rightarrow>
          if r then conversion_pool func completed (success + 1, fail)
          else conversion_pool func completed (success, fail + 1))"

fun optimization_pool ::
  "(string \<Rightarrow> string \<Rightarrow> exn + bool \<times> rat) \<Rightarrow> (string \<times> string) list \<Rightarrow> int \<times> int \<times> rat
     \<Rightarrow> exn + int \<times> int \<times> rat" where
  "optimization_pool func [] (success, fail, total_optimized_size) =
     Inr (success, fail, total_optimized_size)"
| "optimization_pool func ((i, out) # completed) (success, fail, total_optimized_size) =
     (case func i out of
        Inl e \<Rightarrow> Inl e
      | Inr (ok, size_mb) \<Rightarrow>
          if ok then optimization_pool func completed
                       (success + 1, fail, fadd total_optimized_size size_mb)
          else optimization_pool func completed (success, fail + 1, total_optimized_size))"

definition process_conversion ::
  "world \<Rightarrow> path list \<Rightarrow> string \<Rightarrow> string \<Rightarrow> (string \<Rightarrow> string \<Rightarrow> exn + bool)
     \<Rightarrow> ((string \<times> string) list \<Rightarrow> (string \<times> string) list) \<Rightarrow> exn + (int \<times> int) \<times> world" where
  "process_conversion w files input_dir output_dir func as_completed =
     (case conversion_tasks w files input_dir output_dir [] of
        Inl e \<Rightarrow> Inl e
      | Inr (tasks, w') \<Rightarrow>
          (case conversion_pool func (as_completed tasks) (0, 0) of
             Inl e \<Rightarrow> Inl e
           | Inr counts \<Rightarrow> Inr (counts, w')))"

text \<open>What \<^verbatim>\<open>process_optimization\<close> prints at the end of a run.\<close>

record run_stats =
  stats_success :: int
  stats_fail :: int
  stats_original_size :: rat
  stats_optimized_size :: rat
  stats_reduction :: "rat option"

definition process_optimization ::
  "codecs \<Rightarrow> world \<Rightarrow> string \<Rightarrow> string \<Rightarrow> rat
     \<Rightarrow> ((string \<times> string) list \<Rightarrow> (string \<times> string) list) \<Rightarrow> exn + run_stats option" where
  "process_optimization env w input_dir output_dir max_size_mb as_completed =
     (let png_files = glob_rec w (Path input_dir) ''.png''
      in if png_files = [] then Inr None
         else case optimization_tasks w png_files input_dir output_dir [] 0 of
                Inl e \<Rightarrow> Inl e
              | Inr (tasks, total_original_size, w') \<Rightarrow>
                  (case optimization_pool
                          (\<lambda>i out. fst (optimize_png env w' i out max_size_mb))
                          (as_completed tasks) (0, 0, 0) of
                     Inl e \<Rightarrow> Inl e
                   | Inr (success, fail, total_optimized_size) \<Rightarrow>
                       Inr (Some \<lparr>stats_success = success, stats_fail = fail,
                                  stats_original_size = total_original_size,
                                  stats_optimized_size = total_optimized_size,
                                  stats_reduction =
                                    (if total_original_size > 0
                                     then Some (fmulf (fdiv (fsub total_original_size total_optimized_size)
                                                            total_original_size) 100)
                                     else None)\<rparr>)))"

section \<open>Vocabulary of the properties\<close>

text \<open>
  The codecs raise nothing outside \<^verbatim>\<open>Exception\<close>: what a decoder or encoder raises for a
  file it cannot read or write.
\<close>

definition raises_only_Exception :: "codecs \<Rightarrow> bool" where
  "raises_only_Exception env \<longleftrightarrow>
     (\<forall>p msg. Image_open env p \<noteq> Inl (BaseException msg)) \<and>
     (\<forall>img msg. png_encode env img \<noteq> Inl (BaseException msg)) \<and>
     (\<forall>img q msg. jpeg_encode env img q \<noteq> Inl (BaseException msg)) \<and>
     (\<forall>p msg. WandImage_open env p \<noteq> Inl (BaseException msg)) \<and>
     (\<forall>img msg. wand_encode env img \<noteq> Inl (BaseException msg))"

text \<open>The number of encodes the size search can make when it starts at a quality.\<close>

definition attempts_from :: "int \<Rightarrow> nat" where
  "attempts_from q = (if q < 30 then 1 else nat ((q - 30) div 5) + 2)"

text \<open>
  No regular file stands where the directories down to \<open>p\<close> have to be, and a world
  that differs from another by new directories only.
\<close>

definition clear_of_files :: "world \<Rightarrow> path \<Rightarrow> bool" where
  "clear_of_files w p \<longleftrightarrow> (\<forall>q\<in>set (prefixes p). stat w q \<noteq> Some File)"

definition extends :: "world \<Rightarrow> world \<Rightarrow> bool" where
  "extends w w' \<longleftrightarrow>
     st_size w' = st_size w \<and> jpeg_saves w' = jpeg_saves w \<and>
     (\<forall>q. stat w' q = Some File \<longrightarrow> stat w q = Some File) \<and>
     (\<forall>q k. stat w q = Some k \<longrightarrow> stat w' q = Some k)"

text \<open>\<^verbatim>\<open>PurePath.stem\<close>: the name without its suffix.\<close>

definition name_stem :: "string \<Rightarrow> string" where
  "name_stem nm = take (length nm - length (name_suffix nm)) nm"




definition proper_names :: "string list \<Rightarrow> bool" where
  "proper_names cs \<longleftrightarrow> cs \<noteq> [] \<and> (\<forall>c\<in>set cs. c \<noteq> [] \<and> CHR ''/'' \<notin> set c)"

definition output_free :: "world \<Rightarrow> path \<Rightarrow> bool" where
  "output_free w P \<longleftrightarrow> (\<forall>q. stat w q = Some File \<longrightarrow> \<not> prefix q P \<and> \<not> prefix P q)"

section \<open>Example inputs\<close>

text \<open>
  A decoder that rejects one PNG and one CR2 file, and a JPEG encoder that writes
  100000 bytes per quality point and refuses every mode but RGB.
\<close>

definition example_codecs :: codecs where
  "example_codecs =
     \<lparr>Image_open = (\<lambda>p.
        if p = ''/a/bad.png'' then Inl (Exception ''UnidentifiedImageError'')
        else if p = ''/a/la.png'' then Inr \<lparr>img_mode = ''LA'', img_size = (640, 480)\<rparr>
        else if p = ''/a/big.png'' then Inr \<lparr>img_mode = ''RGBA'', img_size = (6000, 4000)\<rparr>
        else Inr \<lparr>img_mode = ''RGB'', img_size = (1200, 800)\<rparr>),
      png_encode = (\<lambda>img. Inr 1000),
      jpeg_encode = (\<lambda>img q.
        if img_mode img = ''RGB'' then Inr (nat q * 100000) else Inl (Exception ''OSError'')),
      WandImage_open = (\<lambda>p.
        if p = ''/a/bad.cr2'' then Inl (Exception ''CorruptImageError'')
        else Inr \<lparr>wand_format = ''cr2'', compression_quality = 0, alpha_channel = True\<rparr>),
      wand_encode = (\<lambda>img. Inr 1000)\<rparr>"

definition example_image :: image where
  "example_image = \<lparr>img_mode = ''RGB'', img_size = (1200, 800)\<rparr>"

definition example_world :: world where
  "example_world =
     \<lparr>entries =
        [([''/'', ''a''], Dir), ([''/'', ''a'', ''b''], Dir),
         ([''/'', ''a'', ''b'', ''c.heic''], File), ([''/'', ''a'', ''d.HEIC''], File),
         ([''/'', ''a'', ''x.PNG''], File), ([''/'', ''a'', ''y.png''], File),
         ([''/'', ''a'', ''bad.png''], File)],
      st_size = (\<lambda>p. if p = [''/'', ''a'', ''y.png''] then 3145728 else 1048576),
      jpeg_saves = []\<rparr>"

section \<open>The size search\<close>

lemma save_jpeg_ok:
  "jpeg_encode env img q = Inr n \<Longrightarrow> save_jpeg env img out q w = (Inr (), after_save w img out q n)"
  by (simp add: save_jpeg_def)

lemma save_jpeg_raises:
  "jpeg_encode env img q = Inl e \<Longrightarrow>
   save_jpeg env img out q w = (Inl e, w\<lparr>jpeg_saves := jpeg_saves w @ [(img, q)]\<rparr>)"
  by (simp add: save_jpeg_def)

lemma getsize_after_save: "getsize (after_save w img out q n) (Path out) = Inr n"
  by (simp add: getsize_def stat_def after_save_def update_conv')

lemma jpeg_saves_after_save: "jpeg_saves (after_save w img out q n) = jpeg_saves w @ [(img, q)]"
  by (simp add: after_save_def)

text \<open>One turn of the loop, when the encoder returns and when it raises.\<close>

lemma quality_loop_step:
  assumes "jpeg_encode env img q = Inr n"
  shows "quality_loop env img out m q w =
     (if truediv (int n) (1024 * 1024) \<le> m \<or> q < 30
      then (Inr (True, truediv (int n) (1024 * 1024)), after_save w img out q n)
      else quality_loop env img out m (q - 5) (after_save w img out q n))"
  by (subst quality_loop.simps) (simp add: save_jpeg_ok [OF assms] getsize_after_save Let_def)

lemma quality_loop_raises:
  assumes "jpeg_encode env img q = Inl e"
  shows "quality_loop env img out m q w = (Inl e, w\<lparr>jpeg_saves := jpeg_saves w @ [(img, q)]\<rparr>)"
  by (subst quality_loop.simps) (simp add: save_jpeg_raises [OF assms])

lemma map_upt_shift:
  "map (\<lambda>k. g (q - 5 * int k)) [0..<Suc (Suc n)] = g q # map (\<lambda>k. g (q - 5 - 5 * int k)) [0..<Suc n]"
proof -
  have "[0..<Suc (Suc n)] = 0 # map Suc [0..<Suc n]"
    by (simp only: map_Suc_upt upt_rec [of 0 "Suc (Suc n)"]) simp
  then show ?thesis by (simp add: comp_def algebra_simps del: upt_Suc)
qed

lemma snd_optimize_png:
  "snd (optimize_png env w input_path output_path max_size_mb)
     = snd (optimize_png_body env w input_path output_path max_size_mb)"
  by (simp add: optimize_png_def split_def)

lemma fst_optimize_png:
  "fst (optimize_png env w input_path output_path max_size_mb)
     = except_Exception (fst (optimize_png_body env w input_path output_path max_size_mb)) (False, 0)"
  by (simp add: optimize_png_def split_def)

lemma optimize_png_body_loop:
  "Image_open env input_path = Inr img0 \<Longrightarrow> prepare img0 = Inr img \<Longrightarrow>
   optimize_png_body env w input_path output_path max_size_mb
     = quality_loop env img output_path max_size_mb 90 w"
  by (simp add: optimize_png_body_def)

text \<open>
  With an encoder that returns at every quality, the loop started at \<open>q\<close> tries
  \<open>q, q - 5, ...\<close> and stops at the first quality whose file fits or that lies below 30.
\<close>

lemma quality_loop_trace:
  assumes enc: "\<And>q. jpeg_encode env img q = Inr (f q)"
  shows "\<exists>n. (\<forall>k<n. \<not> (truediv (int (f (q - 5 * int k))) (1024 * 1024) \<le> m \<or> q - 5 * int k < 30))
           \<and> (truediv (int (f (q - 5 * int n))) (1024 * 1024) \<le> m \<or> q - 5 * int n < 30)
           \<and> fst (quality_loop env img out m q w)
               = Inr (True, truediv (int (f (q - 5 * int n))) (1024 * 1024))
           \<and> jpeg_saves (snd (quality_loop env img out m q w))
               = jpeg_saves w @ map (\<lambda>k. (img, q - 5 * int k)) [0..<Suc n]
           \<and> getsize (snd (quality_loop env img out m q w)) (Path out) = Inr (f (q - 5 * int n))"
proof (induction "nat q" arbitrary: q w rule: less_induct)
  case less
  let ?mb = "\<lambda>q. truediv (int (f q)) (1024 * 1024)"
  let ?acc = "\<lambda>q. ?mb q \<le> m \<or> q < 30"
  let ?w1 = "after_save w img out q (f q)"
  show ?case
  proof (cases "?acc q")
    case True
    then have "quality_loop env img out m q w = (Inr (True, ?mb q), ?w1)"
      using quality_loop_step [OF enc, of out m q w] by simp
    with True show ?thesis
      by (intro exI [of _ 0]) (simp add: jpeg_saves_after_save getsize_after_save)
  next
    case False
    then have step: "quality_loop env img out m q w = quality_loop env img out m (q - 5) ?w1"
      using quality_loop_step [OF enc, of out m q w] by simp
    from False have "nat (q - 5) < nat q" by simp
    from less [OF this, of ?w1]
    obtain n where n:
      "\<forall>k<n. \<not> ?acc (q - 5 - 5 * int k)"
      "?acc (q - 5 - 5 * int n)"
      "fst (quality_loop env img out m (q - 5) ?w1) = Inr (True, ?mb (q - 5 - 5 * int n))"
      "jpeg_saves (snd (quality_loop env img out m (q - 5) ?w1))
         = jpeg_saves ?w1 @ map (\<lambda>k. (img, q - 5 - 5 * int k)) [0..<Suc n]"
      "getsize (snd (quality_loop env img out m (q - 5) ?w1)) (Path out) = Inr (f (q - 5 - 5 * int n))"
      by blast
    have eq: "q - 5 - 5 * int k = q - 5 * int (Suc k)" for k by simp
    have "\<forall>k<Suc n. \<not> ?acc (q - 5 * int k)"
    proof (intro allI impI)
      fix k assume "k < Suc n"
      show "\<not> ?acc (q - 5 * int k)"
      proof (cases k)
        case 0 with False show ?thesis by simp
      next
        case (Suc j)
        with \<open>k < Suc n\<close> have "j < n" by simp
        with n(1) have "\<not> ?acc (q - 5 - 5 * int j)" by blast
        then show ?thesis unfolding Suc eq .
      qed
    qed
    moreover have "?acc (q - 5 * int (Suc n))" using n(2) unfolding eq .
    moreover have "fst (quality_loop env img out m q w) = Inr (True, ?mb (q - 5 * int (Suc n)))"
      using n(3) unfolding eq step .
    moreover have "jpeg_saves (snd (quality_loop env img out m q w))
        = jpeg_saves w @ map (\<lambda>k. (img, q - 5 * int k)) [0..<Suc (Suc n)]"
      unfolding step n(4) jpeg_saves_after_save map_upt_shift [of "\<lambda>q. (img, q)"] by simp
    moreover have "getsize (snd (quality_loop env img out m q w)) (Path out)
        = Inr (f (q - 5 * int (Suc n)))"
      using n(5) unfolding eq step .
    ultimately show ?thesis by blast
  qed
qed

lemma example_prepare: "prepare example_image = Inr example_image"
  by (simp add: prepare_def example_image_def resize_dims_def max_dimension_def)

lemma example_open: "Image_open example_codecs ''/a/y.png'' = Inr example_image"
  by (simp add: example_codecs_def example_image_def)

lemma example_encode: "jpeg_encode example_codecs example_image q = Inr (nat q * 100000)"
  by (simp add: example_codecs_def example_image_def)

text \<open>
  C2. For a decodable input whose encodes all return, optimize_png starts the search at
  quality 90, encodes at the current quality, goes on to the quality 5 lower while the
  measured size exceeds \<open>max_size_mb\<close> and the quality is at least 30, and accepts at the
  first quality whose size is at most \<open>max_size_mb\<close> or that is below 30; it returns
  \<open>(True, size_mb)\<close> with the size of that last encode, which is the size of the file
  left at the output path.
\<close>

theorem size_search_accepts_first_fit_or_floor:
  assumes "Image_open env input_path = Inr img0" and "prepare img0 = Inr img"
    and enc: "\<And>q. jpeg_encode env img q = Inr (f q)"
  shows "\<exists>n. (\<forall>k<n. \<not> (truediv (int (f (90 - 5 * int k))) (1024 * 1024) \<le> max_size_mb
                        \<or> 90 - 5 * int k < 30))
           \<and> (truediv (int (f (90 - 5 * int n))) (1024 * 1024) \<le> max_size_mb \<or> 90 - 5 * int n < 30)
           \<and> fst (optimize_png env w input_path output_path max_size_mb)
               = Inr (True, truediv (int (f (90 - 5 * int n))) (1024 * 1024))
           \<and> jpeg_saves (snd (optimize_png env w input_path output_path max_size_mb))
               = jpeg_saves w @ map (\<lambda>k. (img, 90 - 5 * int k)) [0..<Suc n]
           \<and> getsize (snd (optimize_png env w input_path output_path max_size_mb)) (Path output_path)
               = Inr (f (90 - 5 * int n))"
proof -
  from quality_loop_trace [of env img f 90 max_size_mb output_path w, OF enc]
  obtain n where n:
    "\<forall>k<n. \<not> (truediv (int (f (90 - 5 * int k))) (1024 * 1024) \<le> max_size_mb \<or> 90 - 5 * int k < 30)"
    "truediv (int (f (90 - 5 * int n))) (1024 * 1024) \<le> max_size_mb \<or> 90 - 5 * int n < 30"
    "fst (quality_loop env img output_path max_size_mb 90 w)
       = Inr (True, truediv (int (f (90 - 5 * int n))) (1024 * 1024))"
    "jpeg_saves (snd (quality_loop env img output_path max_size_mb 90 w))
       = jpeg_saves w @ map (\<lambda>k. (img, 90 - 5 * int k)) [0..<Suc n]"
    "getsize (snd (quality_loop env img output_path max_size_mb 90 w)) (Path output_path)
       = Inr (f (90 - 5 * int n))"
    by blast
  have body: "optimize_png_body env w input_path output_path max_size_mb
      = quality_loop env img output_path max_size_mb 90 w"
    by (rule optimize_png_body_loop [OF assms(1,2)])
  have "fst (optimize_png env w input_path output_path max_size_mb)
      = Inr (True, truediv (int (f (90 - 5 * int n))) (1024 * 1024))"
    by (simp add: fst_optimize_png body n(3) except_Exception_def)
  with n(1,2,4,5) show ?thesis
    unfolding snd_optimize_png body by blast
qed

theorem size_search_accepts_first_fit_or_floor_witness:
  "\<exists>n. (\<forall>k<n. \<not> (truediv (int (nat (90 - 5 * int k) * 100000)) (1024 * 1024) \<le> 5
                        \<or> 90 - 5 * int k < 30))
           \<and> (truediv (int (nat (90 - 5 * int n) * 100000)) (1024 * 1024) \<le> 5 \<or> 90 - 5 * int n < 30)
           \<and> fst (optimize_png example_codecs example_world ''/a/y.png'' ''/out/y.jpg'' 5)
               = Inr (True, truediv (int (nat (90 - 5 * int n) * 100000)) (1024 * 1024))
           \<and> jpeg_saves (snd (optimize_png example_codecs example_world ''/a/y.png'' ''/out/y.jpg'' 5))
               = jpeg_saves example_world @ map (\<lambda>k. (example_image, 90 - 5 * int k)) [0..<Suc n]
           \<and> getsize (snd (optimize_png example_codecs example_world ''/a/y.png'' ''/out/y.jpg'' 5))
                 (Path ''/out/y.jpg'')
               = Inr (nat (90 - 5 * int n) * 100000)"
  by (rule size_search_accepts_first_fit_or_floor [OF example_open example_prepare example_encode])

section \<open>The number of encodes\<close>

lemma attempts_from_step: "\<not> q < 30 \<Longrightarrow> Suc (attempts_from (q - 5)) = attempts_from q"
  unfolding attempts_from_def by (auto simp: nat_add_distrib)

lemma quality_loop_attempts:
  "length (jpeg_saves (snd (quality_loop env img out m q w))) \<le> length (jpeg_saves w) + attempts_from q"
proof (induction "nat q" arbitrary: q w rule: less_induct)
  case less
  show ?case
  proof (cases "jpeg_encode env img q")
    case (Inl e)
    then show ?thesis by (simp add: quality_loop_raises attempts_from_def)
  next
    case (Inr n)
    show ?thesis
    proof (cases "truediv (int n) (1024 * 1024) \<le> m \<or> q < 30")
      case True
      then show ?thesis
        by (simp add: quality_loop_step [OF Inr] jpeg_saves_after_save attempts_from_def)
    next
      case False
      then have "nat (q - 5) < nat q" by simp
      from less [OF this, of "after_save w img out q n"] False
      show ?thesis
        using attempts_from_step [of q]
        by (simp add: quality_loop_step [OF Inr] jpeg_saves_after_save)
    qed
  qed
qed


section \<open>Rounding: error bound and exact values\<close>

lemma pow2_powi: "pow2 e = 2 powi e"
  by (simp add: pow2_def power_int_def field_simps)

lemma pow2_pos: "0 < pow2 e"
  by (simp add: pow2_powi)

lemma pow2_add: "pow2 (a + b) = pow2 a * pow2 b"
  by (simp add: pow2_powi power_int_add)

lemma pow2_nat: "0 \<le> e \<Longrightarrow> pow2 e = 2 ^ nat e"
  by (simp add: pow2_def)

lemma pow2_strict_mono: "a < b \<Longrightarrow> pow2 a < pow2 b"
  by (simp add: pow2_powi power_int_strict_increasing)

lemma pow2_mono: "a \<le> b \<Longrightarrow> pow2 a \<le> pow2 b"
  by (simp add: pow2_powi power_int_increasing)

lemma pow2_less_iff: "pow2 a < pow2 b \<longleftrightarrow> a < b"
  using pow2_strict_mono [of a b] pow2_mono [of b a] by (cases "a < b") auto

lemma float_exponent_bounds:
  assumes "0 < x"
  shows "pow2 (float_exponent x) \<le> x \<and> x < pow2 (float_exponent x + 1)"
proof (cases "1 \<le> x")
  case True
  define n where "n = \<lfloor>x\<rfloor>"
  have n: "1 \<le> n" using True by (simp add: n_def le_floor_iff)
  then have pos: "0 < n" by simp
  have b1: "1 \<le> bitlen n" using pos by (simp add: bitlen_alt_def)
  from bitlen_bounds [OF pos] have lo: "2 ^ nat (bitlen n - 1) \<le> n" and hi: "n < 2 ^ nat (bitlen n)"
    by simp_all
  have e: "float_exponent x = bitlen n - 1" using True by (simp add: float_exponent_def n_def)
  have "pow2 (bitlen n - 1) = of_int (2 ^ nat (bitlen n - 1))"
    using b1 by (simp add: pow2_nat)
  also have "\<dots> \<le> of_int n" using lo by (simp only: of_int_le_iff)
  also have "\<dots> \<le> x" by (simp add: n_def)
  finally have 1: "pow2 (float_exponent x) \<le> x" by (simp add: e)
  have "n + 1 \<le> 2 ^ nat (bitlen n)" using hi by simp
  then have "(of_int (n + 1) :: rat) \<le> of_int (2 ^ nat (bitlen n))" by (simp only: of_int_le_iff)
  moreover have "x < of_int (n + 1)" using floor_correct [of x] by (simp add: n_def)
  moreover have "pow2 (bitlen n - 1 + 1) = of_int (2 ^ nat (bitlen n))"
    using b1 by (simp add: pow2_nat)
  ultimately have 2: "x < pow2 (float_exponent x + 1)" by (simp add: e)
  from 1 2 show ?thesis ..
next
  case False
  then have x1: "x < 1" by simp
  define y where "y = 1 / x"
  have y1: "1 < y" using assms x1 by (simp add: y_def)
  define m where "m = \<lceil>y\<rceil> - 1"
  have "1 < \<lceil>y\<rceil>" using y1 by (simp add: less_ceiling_iff)
  then have pos: "0 < m" by (simp add: m_def)
  have b1: "1 \<le> bitlen m" using pos by (simp add: bitlen_alt_def)
  from bitlen_bounds [OF pos] have lo: "2 ^ nat (bitlen m - 1) \<le> m" and hi: "m < 2 ^ nat (bitlen m)"
    by simp_all
  have e: "float_exponent x = - bitlen m" using False by (simp add: float_exponent_def m_def y_def)
  have "y \<le> of_int (m + 1)" by (simp add: m_def)
  also have "\<dots> \<le> of_int (2 ^ nat (bitlen m))"
  proof -
    from hi have "m + 1 \<le> 2 ^ nat (bitlen m)" by simp
    then show ?thesis by (simp only: of_int_le_iff)
  qed
  also have "\<dots> = 2 ^ nat (bitlen m)" by simp
  finally have yhi: "y \<le> 2 ^ nat (bitlen m)" .
  have "(of_int (2 ^ nat (bitlen m - 1)) :: rat) \<le> of_int m" using lo by (simp only: of_int_le_iff)
  then have "(2 ^ nat (bitlen m - 1) :: rat) \<le> of_int m" by simp
  moreover have "of_int m < y" using ceiling_correct [of y] by (simp add: m_def)
  ultimately have ylo: "2 ^ nat (bitlen m - 1) < y" by linarith
  have "pow2 (- bitlen m) = 1 / 2 ^ nat (bitlen m)"
    using b1 by (simp add: pow2_def)
  also have "\<dots> \<le> x"
    using yhi assms by (simp add: y_def field_simps)
  finally have 1: "pow2 (float_exponent x) \<le> x" by (simp add: e)
  have "x < 1 / 2 ^ nat (bitlen m - 1)"
    using ylo assms by (simp add: y_def field_simps)
  also have "1 / 2 ^ nat (bitlen m - 1) = pow2 (- bitlen m + 1)"
  proof (cases "bitlen m = 1")
    case True then show ?thesis by (simp add: pow2_def)
  next
    case False
    with b1 have "- bitlen m + 1 < 0" by simp
    then show ?thesis by (simp add: pow2_def)
  qed
  finally have 2: "x < pow2 (float_exponent x + 1)" by (simp add: e)
  from 1 2 show ?thesis ..
qed


lemma round_half_even_of_int: "round_half_even (of_int k) = k"
  by (simp add: round_half_even_def)


lemma fl_pos_unfold:
  "0 < x \<Longrightarrow> fl x = of_int (round_half_even (x / pow2 (float_exponent x - 52))) * pow2 (float_exponent x - 52)"
  by (simp add: fl_def Let_def)


lemma fl_exact:
  assumes k: "0 < k" "k < 2 ^ 53"
  shows "fl (of_int k * pow2 j) = of_int k * pow2 j"
proof -
  define x where "x = of_int k * pow2 j"
  have x: "0 < x" using k by (simp add: x_def pow2_pos)
  define e where "e = float_exponent x"
  from float_exponent_bounds [OF x] have "pow2 e \<le> x" by (simp add: e_def)
  also have "x < 2 ^ 53 * pow2 j"
  proof -
    from k have "(of_int k :: rat) < of_int (2 ^ 53)" by (simp only: of_int_less_iff)
    then show ?thesis unfolding x_def by (simp add: pow2_pos)
  qed
  also have "2 ^ 53 * pow2 j = pow2 (53 + j)"
  proof -
    have "pow2 53 = 2 ^ 53" by (simp add: pow2_def)
    then show ?thesis by (simp only: pow2_add)
  qed
  finally have "e < 53 + j" by (simp add: pow2_less_iff)
  then have d: "0 \<le> j - (e - 52)" by simp
  have "pow2 j = pow2 ((j - (e - 52)) + (e - 52))" by simp
  also have "\<dots> = pow2 (j - (e - 52)) * pow2 (e - 52)" by (rule pow2_add)
  finally have "x / pow2 (e - 52) = of_int k * pow2 (j - (e - 52))"
    using pow2_pos [of "e - 52"] by (simp add: x_def)
  also have "\<dots> = of_int (k * 2 ^ nat (j - (e - 52)))"
    using d by (simp add: pow2_nat)
  finally have q: "x / pow2 (e - 52) = of_int (k * 2 ^ nat (j - (e - 52)))" .
  have "fl x = of_int (round_half_even (x / pow2 (e - 52))) * pow2 (e - 52)"
    unfolding e_def by (rule fl_pos_unfold [OF x])
  also have "\<dots> = x / pow2 (e - 52) * pow2 (e - 52)"
    unfolding q round_half_even_of_int ..
  also have "\<dots> = x" using pow2_pos [of "e - 52"] by simp
  finally show ?thesis by (simp add: x_def)
qed

text \<open>A file size in MB is computed exactly.\<close>

lemma truediv_MB_exact:
  assumes "0 \<le> k" and "k < 2 ^ 53"
  shows "truediv k 1048576 = of_int k / 1048576"
proof (cases "k = 0")
  case True
  then show ?thesis by (simp add: truediv_def fl_def)
next
  case False
  with assms have "fl (of_int k * pow2 (- 20)) = of_int k * pow2 (- 20)"
    by (intro fl_exact) simp_all
  then show ?thesis by (simp add: truediv_def pow2_def)
qed

lemma size_mb_exact:
  assumes "n < 2 ^ 53"
  shows "truediv (int n) (1024 * 1024) = of_nat n / 1048576"
proof -
  have "int n < 2 ^ 53" using assms by (metis of_nat_less_iff of_nat_numeral of_nat_power)
  then show ?thesis using truediv_MB_exact [of "int n"] by simp
qed

text \<open>
  C3 (as the code has it). The size search makes at most 14 encodes, whatever the
  decoder and the encoder do: one at each of the 13 qualities 90, 85, ..., 30 and one at 25.
\<close>

theorem size_search_at_most_14_encodes:
  "length (jpeg_saves (snd (optimize_png env w input_path output_path max_size_mb)))
     \<le> length (jpeg_saves w) + 14"
proof (cases "Image_open env input_path")
  case (Inl e)
  then show ?thesis by (simp add: snd_optimize_png optimize_png_body_def)
next
  case img0: (Inr img0)
  show ?thesis
  proof (cases "prepare img0")
    case (Inl e)
    with img0 show ?thesis by (simp add: snd_optimize_png optimize_png_body_def)
  next
    case (Inr img)
    have "attempts_from 90 = 14" by (simp add: attempts_from_def)
    with quality_loop_attempts [of env img output_path max_size_mb 90 w] img0 Inr
    show ?thesis by (simp add: snd_optimize_png optimize_png_body_def)
  qed
qed

theorem size_search_at_most_14_encodes_witness:
  "length (jpeg_saves (snd (optimize_png example_codecs example_world ''/a/y.png'' ''/out/y.jpg'' 1)))
     \<le> length (jpeg_saves example_world) + 14"
  by (rule size_search_at_most_14_encodes)

text \<open>
  C3 as stated fails: with a target of 1 MB and an encoder that writes 100000 bytes per
  quality point, no quality from 90 down to 25 fits, and the search encodes 14 times.
\<close>

theorem size_search_13_encodes_counterexample:
  "\<not> length (jpeg_saves (snd (optimize_png example_codecs example_world ''/a/y.png'' ''/out/y.jpg'' 1)))
       \<le> 13"
  by (simp add: snd_optimize_png optimize_png_body_loop [OF example_open example_prepare]
      quality_loop_step [OF example_encode] truediv_MB_exact jpeg_saves_after_save example_world_def)

section \<open>A first encode that fits\<close>

text \<open>
  C4. When the input decodes and the encode at quality 90 already gives a file of at most
  \<open>max_size_mb\<close>, optimize_png makes exactly one encode, at quality 90, and returns success
  with that size.
\<close>

theorem one_encode_when_quality_90_fits:
  assumes "Image_open env input_path = Inr img0" and "prepare img0 = Inr img"
    and "jpeg_encode env img 90 = Inr n" and "truediv (int n) (1024 * 1024) \<le> max_size_mb"
  shows "fst (optimize_png env w input_path output_path max_size_mb)
           = Inr (True, truediv (int n) (1024 * 1024))
         \<and> jpeg_saves (snd (optimize_png env w input_path output_path max_size_mb))
           = jpeg_saves w @ [(img, 90)]"
  using assms
  by (simp add: optimize_png_def optimize_png_body_def quality_loop_step [OF assms(3)]
      except_Exception_def jpeg_saves_after_save)

theorem one_encode_when_quality_90_fits_witness:
  "fst (optimize_png example_codecs example_world ''/a/y.png'' ''/out/y.jpg'' 15)
           = Inr (True, truediv (int (nat 90 * 100000)) (1024 * 1024))
         \<and> jpeg_saves (snd (optimize_png example_codecs example_world ''/a/y.png'' ''/out/y.jpg'' 15))
           = jpeg_saves example_world @ [(example_image, 90)]"
proof -
  have "truediv (int (nat 90 * 100000)) (1024 * 1024) \<le> 15"
    by (simp add: truediv_MB_exact)
  from one_encode_when_quality_90_fits [OF example_open example_prepare example_encode this]
  show ?thesis .
qed

section \<open>The counters of the pool\<close>

lemma conversion_pool_counts:
  assumes "\<forall>t\<in>set completed. \<exists>b. func (fst t) (snd t) = Inr b"
  shows "conversion_pool func completed (s, f)
       = Inr (s + int (length (filter (\<lambda>t. func (fst t) (snd t) = Inr True) completed)),
              f + int (length (filter (\<lambda>t. func (fst t) (snd t) = Inr False) completed)))"
  using assms
proof (induction completed arbitrary: s f)
  case Nil
  then show ?case by simp
next
  case (Cons t completed)
  obtain i out where t: "t = (i, out)" by (cases t)
  from Cons.prems obtain b where b: "func i out = Inr b" by (auto simp: t)
  from Cons.prems have rest: "\<forall>t\<in>set completed. \<exists>b. func (fst t) (snd t) = Inr b" by simp
  show ?case
    by (cases b) (simp_all add: t b Cons.IH [OF rest])
qed

lemma length_filter_mset_eq:
  "mset xs = mset ys \<Longrightarrow> length (filter P xs) = length (filter P ys)"
  by (metis mset_filter size_mset)

lemma results_partition:
  assumes "\<forall>t\<in>set ts. \<exists>b. func (fst t) (snd t) = Inr b"
  shows "length (filter (\<lambda>t. func (fst t) (snd t) = Inr True) ts)
       + length (filter (\<lambda>t. func (fst t) (snd t) = Inr False) ts) = length ts"
  using assms by (induction ts) auto

lemma optimization_pool_counts:
  assumes "\<forall>t\<in>set completed. \<exists>r. func (fst t) (snd t) = Inr r"
  shows "\<exists>total. optimization_pool func completed (s, f, tot)
       = Inr (s + int (length (filter (\<lambda>t. \<exists>m. func (fst t) (snd t) = Inr (True, m)) completed)),
              f + int (length (filter (\<lambda>t. \<exists>m. func (fst t) (snd t) = Inr (False, m)) completed)),
              total)"
  using assms
proof (induction completed arbitrary: s f tot)
  case Nil
  then show ?case by simp
next
  case (Cons t completed)
  obtain i out where t: "t = (i, out)" by (cases t)
  from Cons.prems obtain ok m where r: "func i out = Inr (ok, m)" by (fastforce simp: t)
  from Cons.prems have rest: "\<forall>t\<in>set completed. \<exists>r. func (fst t) (snd t) = Inr r" by simp
  show ?case
  proof (cases ok)
    case True
    with Cons.IH [OF rest, of "s + 1" f "fadd tot m"] show ?thesis by (auto simp: t r)
  next
    case False
    with Cons.IH [OF rest, of s "f + 1" tot] show ?thesis by (auto simp: t r)
  qed
qed

lemma results_partition_opt:
  assumes "\<forall>t\<in>set ts. \<exists>r. func (fst t) (snd t) = Inr r"
  shows "length (filter (\<lambda>t. \<exists>m. func (fst t) (snd t) = Inr (True, m)) ts)
       + length (filter (\<lambda>t. \<exists>m. func (fst t) (snd t) = Inr (False, m)) ts) = length ts"
  using assms
proof (induction ts)
  case Nil then show ?case by simp
next
  case (Cons t ts)
  then obtain ok m where "func (fst t) (snd t) = Inr (ok, m)" by fastforce
  with Cons show ?case by (cases ok) auto
qed


text \<open>
  C1. Whatever the order in which the workers complete the tasks, when no transform raises,
  both pools return counters with \<open>success + fail\<close> equal to the number of tasks: success
  counts the tasks whose transform returned true and fail those whose transform returned
  false, each task once.
\<close>

theorem pool_counts_every_task_once:
  assumes perm: "mset completed = mset tasks"
    and conv: "\<forall>t\<in>set tasks. \<exists>b. func (fst t) (snd t) = Inr b"
    and opt: "\<forall>t\<in>set tasks. \<exists>r. ofunc (fst t) (snd t) = Inr r"
  shows "(\<exists>success fail. conversion_pool func completed (0, 0) = Inr (success, fail)
            \<and> success + fail = int (length tasks)
            \<and> success = int (length (filter (\<lambda>t. func (fst t) (snd t) = Inr True) tasks))
            \<and> fail = int (length (filter (\<lambda>t. func (fst t) (snd t) = Inr False) tasks)))
       \<and> (\<exists>success fail total. optimization_pool ofunc completed (0, 0, 0) = Inr (success, fail, total)
            \<and> success + fail = int (length tasks)
            \<and> success = int (length (filter (\<lambda>t. \<exists>m. ofunc (fst t) (snd t) = Inr (True, m)) tasks))
            \<and> fail = int (length (filter (\<lambda>t. \<exists>m. ofunc (fst t) (snd t) = Inr (False, m)) tasks)))"
proof -
  from perm have sets: "set completed = set tasks" by (rule mset_eq_setD)
  have c: "\<forall>t\<in>set completed. \<exists>b. func (fst t) (snd t) = Inr b" using conv sets by simp
  have o: "\<forall>t\<in>set completed. \<exists>r. ofunc (fst t) (snd t) = Inr r" using opt sets by simp
  have "conversion_pool func completed (0, 0)
      = Inr (int (length (filter (\<lambda>t. func (fst t) (snd t) = Inr True) tasks)),
             int (length (filter (\<lambda>t. func (fst t) (snd t) = Inr False) tasks)))"
    using conversion_pool_counts [OF c, of 0 0]
    by (simp add: length_filter_mset_eq [OF perm])
  moreover have "int (length (filter (\<lambda>t. func (fst t) (snd t) = Inr True) tasks))
      + int (length (filter (\<lambda>t. func (fst t) (snd t) = Inr False) tasks)) = int (length tasks)"
    using results_partition [OF conv] by linarith
  moreover obtain total where "optimization_pool ofunc completed (0, 0, 0)
      = Inr (int (length (filter (\<lambda>t. \<exists>m. ofunc (fst t) (snd t) = Inr (True, m)) tasks)),
             int (length (filter (\<lambda>t. \<exists>m. ofunc (fst t) (snd t) = Inr (False, m)) tasks)), total)"
    using optimization_pool_counts [OF o, of 0 0 0]
    by (auto simp add: length_filter_mset_eq [OF perm])
  moreover have "int (length (filter (\<lambda>t. \<exists>m. ofunc (fst t) (snd t) = Inr (True, m)) tasks))
      + int (length (filter (\<lambda>t. \<exists>m. ofunc (fst t) (snd t) = Inr (False, m)) tasks)) = int (length tasks)"
    using results_partition_opt [OF opt] by linarith
  ultimately show ?thesis by simp
qed

theorem pool_counts_every_task_once_witness:
  "(\<exists>success fail.
      conversion_pool (convert_heic_to_png example_codecs)
        [(''/a/bad.png'', ''/out/bad.png''), (''/a/y.png'', ''/out/y.png'')] (0, 0) = Inr (success, fail)
      \<and> success + fail = int (length [(''/a/y.png'', ''/out/y.png''), (''/a/bad.png'', ''/out/bad.png'')])
      \<and> success = int (length (filter (\<lambda>t. convert_heic_to_png example_codecs (fst t) (snd t) = Inr True)
                       [(''/a/y.png'', ''/out/y.png''), (''/a/bad.png'', ''/out/bad.png'')]))
      \<and> fail = int (length (filter (\<lambda>t. convert_heic_to_png example_codecs (fst t) (snd t) = Inr False)
                       [(''/a/y.png'', ''/out/y.png''), (''/a/bad.png'', ''/out/bad.png'')])))
   \<and> (\<exists>success fail total.
      optimization_pool (\<lambda>i out. Inr (i = ''/a/y.png'', 2))
        [(''/a/bad.png'', ''/out/bad.png''), (''/a/y.png'', ''/out/y.png'')] (0, 0, 0)
        = Inr (success, fail, total)
      \<and> success + fail = int (length [(''/a/y.png'', ''/out/y.png''), (''/a/bad.png'', ''/out/bad.png'')])
      \<and> success = int (length (filter (\<lambda>t. \<exists>m. Inr (fst t = ''/a/y.png'', 2) = (Inr (True, m) :: exn + bool \<times> rat))
                       [(''/a/y.png'', ''/out/y.png''), (''/a/bad.png'', ''/out/bad.png'')]))
      \<and> fail = int (length (filter (\<lambda>t. \<exists>m. Inr (fst t = ''/a/y.png'', 2) = (Inr (False, m) :: exn + bool \<times> rat))
                       [(''/a/y.png'', ''/out/y.png''), (''/a/bad.png'', ''/out/bad.png'')])))"
proof -
  have perm: "mset [(''/a/bad.png'', ''/out/bad.png''), (''/a/y.png'', ''/out/y.png'')]
      = mset [(''/a/y.png'', ''/out/y.png''), (''/a/bad.png'', ''/out/bad.png'')]"
    by simp
  have conv: "\<forall>t\<in>set [(''/a/y.png'', ''/out/y.png''), (''/a/bad.png'', ''/out/bad.png'')].
      \<exists>b. convert_heic_to_png example_codecs (fst t) (snd t) = Inr b"
    by (auto simp: convert_heic_to_png_def convert_heic_to_png_body_def except_Exception_def
        example_codecs_def)
  have opt: "\<forall>t\<in>set [(''/a/y.png'', ''/out/y.png''), (''/a/bad.png'', ''/out/bad.png'')].
      \<exists>r. (\<lambda>i out. Inr (i = ''/a/y.png'', 2) :: exn + bool \<times> rat) (fst t) (snd t) = Inr r"
    by simp
  from pool_counts_every_task_once [OF perm conv opt] show ?thesis .
qed


section \<open>Failures at the transform boundary\<close>

lemma except_Exception_total:
  "(\<And>msg. body \<noteq> Inl (BaseException msg)) \<Longrightarrow>
   except_Exception body h = Inr (case body of Inl e \<Rightarrow> h | Inr v \<Rightarrow> v)"
  by (auto simp: except_Exception_def split: sum.splits exn.splits)



lemma resize_no_base: "resize img sz \<noteq> Inl (BaseException msg)"
  by (simp add: resize_def)

lemma prepare_no_base: "prepare img \<noteq> Inl (BaseException msg)"
  by (auto simp: prepare_def Let_def resize_no_base split: option.splits)

lemma quality_loop_no_base:
  assumes "raises_only_Exception env"
  shows "fst (quality_loop env img out m q w) \<noteq> Inl (BaseException msg)"
proof (induction "nat q" arbitrary: q w rule: less_induct)
  case less
  show ?case
  proof (cases "jpeg_encode env img q")
    case (Inl e)
    with assms have "e \<noteq> BaseException msg" by (auto simp: raises_only_Exception_def)
    with Inl show ?thesis by (simp add: quality_loop_raises)
  next
    case (Inr n)
    show ?thesis
    proof (cases "truediv (int n) (1024 * 1024) \<le> m \<or> q < 30")
      case True
      then show ?thesis by (simp add: quality_loop_step [OF Inr])
    next
      case False
      then have "nat (q - 5) < nat q" by simp
      from less [OF this, of "after_save w img out q n"] False
      show ?thesis by (simp add: quality_loop_step [OF Inr])
    qed
  qed
qed

lemma optimize_body_no_base:
  assumes "raises_only_Exception env"
  shows "fst (optimize_png_body env w i out m) \<noteq> Inl (BaseException msg)"
proof (cases "Image_open env i")
  case (Inl e)
  with assms have "e \<noteq> BaseException msg" by (auto simp: raises_only_Exception_def)
  with Inl show ?thesis by (simp add: optimize_png_body_def)
next
  case img0: (Inr img0)
  show ?thesis
  proof (cases "prepare img0")
    case (Inl e)
    with prepare_no_base [of img0 msg] have "e \<noteq> BaseException msg" by auto
    with img0 Inl show ?thesis by (simp add: optimize_png_body_def)
  next
    case (Inr img)
    with img0 quality_loop_no_base [OF assms] show ?thesis by (simp add: optimize_png_body_def)
  qed
qed




lemma optimize_result:
  assumes "raises_only_Exception env"
  shows "fst (optimize_png env w i out m)
       = Inr (case fst (optimize_png_body env w i out m) of Inl e \<Rightarrow> (False, 0) | Inr r \<Rightarrow> r)"
  unfolding fst_optimize_png
  by (rule except_Exception_total [OF optimize_body_no_base [OF assms]])







lemma example_codecs_raise_only_Exception: "raises_only_Exception example_codecs"
  by (simp add: raises_only_Exception_def example_codecs_def)



section \<open>Making directories\<close>

lemma os_mkdir_Inr:
  assumes "os_mkdir w p = Inr w'"
  shows "w' = w\<lparr>entries := entries w @ [(p, Dir)]\<rparr>"
    and "stat w p = None" and "stat w (path_parent p) = Some Dir"
proof -
  from assms show n: "stat w p = None"
    by (cases "stat w p") (simp_all add: os_mkdir_def)
  from assms n show d: "stat w (path_parent p) = Some Dir"
    by (cases "stat w (path_parent p)") (simp_all add: os_mkdir_def split: kind.splits)
  from assms n d show "w' = w\<lparr>entries := entries w @ [(p, Dir)]\<rparr>"
    by (simp add: os_mkdir_def)
qed

lemma stat_after_mkdir:
  assumes "stat w p = None"
  shows "stat (w\<lparr>entries := entries w @ [(p, Dir)]\<rparr>) q = (if q = p then Some Dir else stat w q)"
proof -
  from assms have t: "tail_of p \<noteq> []" and m: "map_of (entries w) p = None"
    by (auto simp: stat_def split: if_splits)
  show ?thesis
  proof (cases "q = p")
    case True
    with t m show ?thesis by (simp add: stat_def map_add_def)
  next
    case False
    then show ?thesis by (simp add: stat_def map_add_def split: option.splits)
  qed
qed

lemma os_mkdir_creates:
  assumes "stat w p = None" and "stat w (path_parent p) = Some Dir"
  shows "os_mkdir w p = Inr (w\<lparr>entries := entries w @ [(p, Dir)]\<rparr>)"
  using assms by (simp add: os_mkdir_def)

lemma os_mkdir_exists:
  assumes "stat w p = Some k"
  shows "os_mkdir w p = Inl (Exception ''FileExistsError'')"
  using assms by (simp add: os_mkdir_def)

lemma os_mkdir_no_parent:
  assumes "stat w p = None" and "stat w (path_parent p) = None"
  shows "os_mkdir w p = Inl (Exception ''FileNotFoundError'')"
  using assms by (simp add: os_mkdir_def)

text \<open>Making a directory that exists changes nothing.\<close>

lemma mkdir_parents_existing:
  assumes "stat w p = Some Dir"
  shows "mkdir_parents w p = Inr w"
  by (subst mkdir_parents.simps) (simp add: os_mkdir_exists [OF assms] assms)

lemma mkdir_exist_ok_existing:
  assumes "stat w p = Some Dir"
  shows "mkdir_exist_ok w p = Inr w"
  by (simp add: mkdir_exist_ok_def os_mkdir_exists [OF assms] assms)

lemma extends_refl: "extends w w"
  unfolding extends_def by blast

lemma extends_trans:
  assumes "extends w w1" and "extends w1 w2"
  shows "extends w w2"
proof -
  from assms have "st_size w2 = st_size w" and "jpeg_saves w2 = jpeg_saves w"
    unfolding extends_def by (metis, metis)
  moreover from assms have "\<forall>q. stat w2 q = Some File \<longrightarrow> stat w q = Some File"
    unfolding extends_def by blast
  moreover from assms have "\<forall>q k. stat w q = Some k \<longrightarrow> stat w2 q = Some k"
    unfolding extends_def by blast
  ultimately show ?thesis unfolding extends_def by blast
qed

lemma extends_mkdir:
  assumes "stat w p = None"
  shows "extends w (w\<lparr>entries := entries w @ [(p, Dir)]\<rparr>)"
  unfolding extends_def
proof (intro conjI allI impI)
  show "st_size (w\<lparr>entries := entries w @ [(p, Dir)]\<rparr>) = st_size w" by simp
  show "jpeg_saves (w\<lparr>entries := entries w @ [(p, Dir)]\<rparr>) = jpeg_saves w" by simp
next
  fix q assume "stat (w\<lparr>entries := entries w @ [(p, Dir)]\<rparr>) q = Some File"
  then show "stat w q = Some File"
    by (simp add: stat_after_mkdir [OF assms] split: if_splits)
next
  fix q k assume "stat w q = Some k"
  with assms show "stat (w\<lparr>entries := entries w @ [(p, Dir)]\<rparr>) q = Some k"
    by (auto simp: stat_after_mkdir [OF assms])
qed

lemma stat_None_parent:
  assumes "stat w p = None"
  shows "path_parent p = butlast p" and "p \<noteq> []" and "butlast p \<noteq> p"
proof -
  from assms have t: "tail_of p \<noteq> []" by (auto simp: stat_def split: if_splits)
  then show ne: "p \<noteq> []" by (auto simp: tail_of_def anchor_def)
  show "butlast p \<noteq> p"
  proof
    assume "butlast p = p"
    then have "length p - 1 = length p" by (metis length_butlast)
    moreover have "0 < length p" using ne by simp
    ultimately show False by arith
  qed
  from t show "path_parent p = butlast p" by (simp add: path_parent_def)
qed

lemma clear_of_files_butlast:
  assumes "clear_of_files w p"
  shows "clear_of_files w (butlast p)"
  unfolding clear_of_files_def
proof
  fix q assume "q \<in> set (prefixes (butlast p))"
  then have "prefix q (butlast p)" by (simp add: in_set_prefixes)
  then have "prefix q p" using prefixeq_butlast [of p] by (rule prefix_order.trans)
  then have "q \<in> set (prefixes p)" by (simp add: in_set_prefixes)
  with assms show "stat w q \<noteq> Some File" by (simp only: clear_of_files_def) blast
qed

lemma not_File_is_Dir: "stat w p = Some k \<Longrightarrow> stat w p \<noteq> Some File \<Longrightarrow> stat w p = Some Dir"
  by (cases k) simp_all

lemma mkdir_parents_unfold_no_parent:
  assumes "stat w p = None" and "stat w (butlast p) = None"
    and "mkdir_parents w (butlast p) = Inr w1"
  shows "mkdir_parents w p = mkdir_exist_ok w1 p"
proof -
  note par = stat_None_parent [OF assms(1)]
  have "os_mkdir w p = Inl (Exception ''FileNotFoundError'')"
    using assms(1,2) by (simp add: os_mkdir_no_parent par(1))
  then show ?thesis
    by (subst mkdir_parents.simps) (simp add: par(1) par(3) assms(3))
qed

lemma mkdir_parents_makes:
  assumes "clear_of_files w p"
  shows "\<exists>w'. mkdir_parents w p = Inr w' \<and> stat w' p = Some Dir \<and> extends w w'"
  using assms
proof (induction "length p" arbitrary: p rule: less_induct)
  case less
  have self: "stat w p \<noteq> Some File"
    using less.prems by (simp add: clear_of_files_def in_set_prefixes)
  show ?case
  proof (cases "stat w p")
    case (Some k)
    from not_File_is_Dir [OF Some self] show ?thesis
      by (simp add: mkdir_parents_existing extends_refl)
  next
    case None
    note par = stat_None_parent [OF None]
    note clear = clear_of_files_butlast [OF less.prems]
    have up: "stat w (butlast p) \<noteq> Some File"
      using clear by (simp add: clear_of_files_def in_set_prefixes)
    show ?thesis
    proof (cases "stat w (butlast p)")
      case (Some k)
      from not_File_is_Dir [OF Some up] have d: "stat w (path_parent p) = Some Dir"
        by (simp add: par(1))
      have "mkdir_parents w p = Inr (w\<lparr>entries := entries w @ [(p, Dir)]\<rparr>)"
        by (subst mkdir_parents.simps) (simp add: os_mkdir_creates [OF None d])
      then show ?thesis
        by (simp add: stat_after_mkdir [OF None] extends_mkdir [OF None])
    next
      case pNone: None
      have len: "length (butlast p) < length p" using par(2) by simp
      from less.hyps [OF len clear] obtain w1 where w1:
        "mkdir_parents w (butlast p) = Inr w1" "stat w1 (butlast p) = Some Dir" "extends w w1"
        by blast
      note unfold = mkdir_parents_unfold_no_parent [OF None pNone w1(1)]
      show ?thesis
      proof (cases "stat w1 p")
        case (Some k)
        have "stat w1 p \<noteq> Some File"
        proof
          assume "stat w1 p = Some File"
          with w1(3) have "stat w p = Some File" unfolding extends_def by blast
          with None show False by simp
        qed
        from not_File_is_Dir [OF Some this] w1(3) show ?thesis
          by (simp add: unfold mkdir_exist_ok_existing)
      next
        case n1: None
        from w1(2) have d: "stat w1 (path_parent p) = Some Dir" by (simp add: par(1))
        have "mkdir_exist_ok w1 p = Inr (w1\<lparr>entries := entries w1 @ [(p, Dir)]\<rparr>)"
          by (simp add: mkdir_exist_ok_def os_mkdir_creates [OF n1 d])
        moreover have "extends w (w1\<lparr>entries := entries w1 @ [(p, Dir)]\<rparr>)"
          using extends_trans [OF w1(3) extends_mkdir [OF n1]] .
        ultimately show ?thesis
          by (simp add: unfold stat_after_mkdir [OF n1])
      qed
    qed
  qed
qed

text \<open>Whatever it does, making directories leaves the file sizes alone.\<close>

lemma mkdir_exist_ok_st_size:
  "mkdir_exist_ok w p = Inr w' \<Longrightarrow> st_size w' = st_size w"
  by (auto simp: mkdir_exist_ok_def split: sum.splits if_splits dest: os_mkdir_Inr(1))

lemma mkdir_parents_st_size:
  "mkdir_parents w p = Inr w' \<Longrightarrow> st_size w' = st_size w"
proof (induction w p arbitrary: w' rule: mkdir_parents.induct)
  case (1 w p)
  show ?case
  proof (cases "os_mkdir w p")
    case (Inr w1)
    with "1.prems" have "w' = w1" by (subst (asm) mkdir_parents.simps) simp
    with Inr show ?thesis by (auto dest: os_mkdir_Inr(1))
  next
    case (Inl e)
    show ?thesis
    proof (cases "e = Exception ''FileNotFoundError''")
      case False
      with Inl "1.prems" show ?thesis
        by (subst (asm) mkdir_parents.simps) (simp split: if_splits)
    next
      case True
      with Inl "1.prems" have ne: "path_parent p \<noteq> p"
        by (subst (asm) mkdir_parents.simps) (auto split: if_splits)
      from Inl True ne "1.prems" obtain w1 where w1:
        "mkdir_parents w (path_parent p) = Inr w1" "mkdir_exist_ok w1 p = Inr w'"
        by (subst (asm) mkdir_parents.simps) (auto split: sum.splits)
      from "1.IH" [OF Inl True ne w1(1)] mkdir_exist_ok_st_size [OF w1(2)]
      show ?thesis by simp
    qed
  qed
qed


section \<open>Task mapping\<close>

lemma rfind_absent: "c \<notin> set ys \<Longrightarrow> rfind ys c = - 1"
  by (induction ys) (auto simp: Let_def)

lemma rfind_last_occurrence: "c \<notin> set ys \<Longrightarrow> rfind (xs @ c # ys) c = int (length xs)"
  by (induction xs) (auto simp: Let_def rfind_absent)

lemma name_suffix_stem_ext:
  assumes "stem \<noteq> []" and "e \<noteq> []" and "CHR ''.'' \<notin> set e"
  shows "name_suffix (stem @ CHR ''.'' # e) = CHR ''.'' # e"
  using assms by (simp add: name_suffix_def rfind_last_occurrence Let_def)

lemma anchor_Nil: "anchor [] = []"
  by (simp add: anchor_def)

lemma anchor_name_first:
  assumes "c \<noteq> ''/''" and "c \<noteq> ''//''"
  shows "anchor (c # cs) = []"
  using assms by (simp add: anchor_def)

lemma anchor_append: "p \<noteq> [] \<Longrightarrow> anchor (p @ q) = anchor p"
  by (cases p) (simp_all add: anchor_def)

lemma no_slash_not_root: "CHR ''/'' \<notin> set c \<Longrightarrow> c \<noteq> ''/'' \<and> c \<noteq> ''//''"
  by auto

lemma stem_not_root:
  assumes "stem \<noteq> []" and "CHR ''/'' \<notin> set stem"
  shows "stem @ s \<noteq> ''/'' \<and> stem @ s \<noteq> ''//''"
proof -
  from assms obtain a r where "stem = a # r" and "a \<noteq> CHR ''/''" by (cases stem) auto
  then show ?thesis by auto
qed

lemma rfind_bounds: "- 1 \<le> rfind s c \<and> rfind s c < int (length s)"
  by (induction s) (auto simp: Let_def)

lemma name_stem_nonempty:
  assumes "nm \<noteq> []"
  shows "name_stem nm \<noteq> []"
proof (cases "0 < rfind nm CHR ''.'' \<and> rfind nm CHR ''.'' < int (length nm) - 1")
  case True
  define i where "i = nat (rfind nm CHR ''.'')"
  from True have i: "0 < i" "i < length nm" unfolding i_def by linarith+
  from True have "name_suffix nm = drop i nm"
    by (simp add: name_suffix_def Let_def i_def)
  then have "name_stem nm = take (length nm - (length nm - i)) nm"
    by (simp add: name_stem_def)
  also have "length nm - (length nm - i) = i" using i by simp
  finally show ?thesis using i assms by simp
next
  case False
  then have "name_suffix nm = []" unfolding name_suffix_def Let_def by (simp only: if_False)
  with assms show ?thesis by (simp add: name_stem_def)
qed

lemma name_stem_no_slash: "CHR ''/'' \<notin> set nm \<Longrightarrow> CHR ''/'' \<notin> set (name_stem nm)"
  unfolding name_stem_def by (meson in_set_takeD)

lemma name_stem_stem_ext:
  assumes "stem \<noteq> []" and "e \<noteq> []" and "CHR ''.'' \<notin> set e"
  shows "name_stem (stem @ CHR ''.'' # e) = stem"
  by (simp add: name_stem_def name_suffix_stem_ext [OF assms])

text \<open>A relative path made of names: directory names, then a file name.\<close>

lemma name_not_root:
  assumes "nm \<noteq> []" and "CHR ''/'' \<notin> set nm"
  shows "nm @ s \<noteq> ''/'' \<and> nm @ s \<noteq> ''//''"
proof -
  from assms obtain a r where "nm = a # r" and "a \<noteq> CHR ''/''" by (cases nm) auto
  then show ?thesis by auto
qed

lemma anchor_names:
  assumes "\<forall>c\<in>set dirs. CHR ''/'' \<notin> set c" and "nm \<noteq> []" and "CHR ''/'' \<notin> set nm"
  shows "anchor (dirs @ [nm @ s]) = []"
proof (cases dirs)
  case Nil
  with name_not_root [OF assms(2,3), of s] show ?thesis by (simp add: anchor_name_first)
next
  case (Cons d ds)
  with assms(1) have "CHR ''/'' \<notin> set d" by simp
  from no_slash_not_root [OF this] Cons show ?thesis by (simp add: anchor_name_first)
qed

lemma relative_to_under:
  assumes "anchor rel = []"
  shows "relative_to (base @ rel) base = Inr rel"
proof -
  have "anchor (base @ rel) = anchor base"
    using assms by (cases "base = []") (simp_all add: anchor_append anchor_Nil)
  then show ?thesis by (simp add: relative_to_def)
qed

lemma with_suffix_name:
  assumes rel: "anchor (dirs @ [nm]) = []" and "nm \<noteq> []"
    and ext: "ext = CHR ''.'' # x" "x \<noteq> []" "CHR ''/'' \<notin> set x"
  shows "with_suffix (dirs @ [nm]) ext = Inr (dirs @ [name_stem nm @ ext])"
proof -
  have nm: "path_name (dirs @ [nm]) = nm"
    using rel by (simp add: path_name_def tail_of_def)
  show ?thesis
    using ext assms(2) by (simp add: with_suffix_def nm Let_def name_stem_def)
qed

lemma joinpath_relative: "anchor q = [] \<Longrightarrow> joinpath p q = p @ q"
  by (simp add: joinpath_def)

lemma path_parent_under:
  assumes "anchor (dirs @ [n]) = []"
  shows "path_parent (base @ dirs @ [n]) = base @ dirs"
proof (cases "base = []")
  case True
  with assms show ?thesis by (simp add: path_parent_def tail_of_def butlast_append)
next
  case False
  then obtain b bs where b: "base = b # bs" by (cases base) auto
  have "tail_of (base @ dirs @ [n]) \<noteq> []"
    by (simp add: tail_of_def b)
  then show ?thesis by (simp add: path_parent_def butlast_append)
qed

lemma map_task_under:
  assumes names: "\<forall>c\<in>set dirs. CHR ''/'' \<notin> set c" "nm \<noteq> []" "CHR ''/'' \<notin> set nm"
    and ext: "ext = CHR ''.'' # x" "x \<noteq> []" "CHR ''/'' \<notin> set x"
  shows "map_task w (Path input_dir @ dirs @ [nm]) input_dir output_dir ext
       = (case mkdir_parents w (Path output_dir @ dirs) of
            Inl err \<Rightarrow> Inl err
          | Inr w' \<Rightarrow> Inr ((str_of (Path input_dir @ dirs @ [nm]),
                            str_of (Path output_dir @ dirs @ [name_stem nm @ ext])), w'))"
proof -
  from anchor_names [OF names, of "[]"] have a1: "anchor (dirs @ [nm]) = []" by simp
  note a2 = anchor_names [OF names(1) name_stem_nonempty [OF names(2)]
      name_stem_no_slash [OF names(3)], of ext]
  show ?thesis
    by (simp add: map_task_def relative_to_under [OF a1]
        with_suffix_name [OF a1 names(2) ext] joinpath_relative [OF a2]
        path_parent_under [OF a2] Let_def)
qed

lemma example_paths:
  "Path ''/a'' @ [''b''] @ [''c.heic''] = Path ''/a/b/c.heic''"
  "str_of (Path ''/a/b/c.heic'') = ''/a/b/c.heic''"
  "str_of (Path ''/out'' @ [''b''] @ [''c'' @ ''.png'']) = ''/out/b/c.png''"
  "Path ''/out'' @ [''b''] = Path ''/out/b''"
  by (simp_all add: Path_def str_of_def anchor_def tail_of_def Let_def)

lemma example_clear: "clear_of_files example_world (Path ''/out'' @ [''b''])"
  by (simp add: clear_of_files_def Path_def stat_def anchor_def tail_of_def example_world_def Let_def)

lemma example_stem: "name_stem ''c.heic'' = ''c''"
  using name_stem_stem_ext [of "''c''" "''heic''"] by simp

text \<open>
  C7. For a file below the input directory, given by the directory names \<open>dirs\<close> and the
  file name \<open>nm\<close> under it, and no regular file in the way of the output directories, the
  task loop body returns the pair of the input path and the path with the same directory
  names under the output directory and the name with its suffix replaced by the new one
  (for a name \<open>stem.e\<close> that is \<open>stem\<close> followed by the new suffix); afterwards the
  parent of the output path is a directory, nothing else has changed but new directories,
  and running the body again returns the same task and changes nothing.
  With input directory \<open>/a\<close>, file \<open>/a/b/c.heic\<close> and output directory \<open>/out\<close> the
  output path is \<open>/out/b/c.png\<close>.
\<close>

theorem task_mapping_mirrors_relative_path:
  assumes names: "\<forall>c\<in>set dirs. CHR ''/'' \<notin> set c" "nm \<noteq> []" "CHR ''/'' \<notin> set nm"
    and ext: "ext = CHR ''.'' # x" "x \<noteq> []" "CHR ''/'' \<notin> set x"
    and clear: "clear_of_files w (Path output_dir @ dirs)"
  shows "\<exists>w'. map_task w (Path input_dir @ dirs @ [nm]) input_dir output_dir ext
               = Inr ((str_of (Path input_dir @ dirs @ [nm]),
                       str_of (Path output_dir @ dirs @ [name_stem nm @ ext])), w')
            \<and> stat w' (Path output_dir @ dirs) = Some Dir
            \<and> extends w w'
            \<and> map_task w' (Path input_dir @ dirs @ [nm]) input_dir output_dir ext
               = Inr ((str_of (Path input_dir @ dirs @ [nm]),
                       str_of (Path output_dir @ dirs @ [name_stem nm @ ext])), w')
            \<and> (CHR ''.'' \<notin> set x \<longrightarrow> name_suffix (name_stem nm @ ext) = ext)
            \<and> (\<forall>stem e. nm = stem @ CHR ''.'' # e \<and> stem \<noteq> [] \<and> e \<noteq> [] \<and> CHR ''.'' \<notin> set e
                 \<longrightarrow> name_stem nm = stem)"
proof -
  from mkdir_parents_makes [OF clear] obtain w' where w':
    "mkdir_parents w (Path output_dir @ dirs) = Inr w'"
    "stat w' (Path output_dir @ dirs) = Some Dir" "extends w w'"
    by blast
  have 1: "map_task w (Path input_dir @ dirs @ [nm]) input_dir output_dir ext
      = Inr ((str_of (Path input_dir @ dirs @ [nm]),
              str_of (Path output_dir @ dirs @ [name_stem nm @ ext])), w')"
    by (simp add: map_task_under [OF names ext] w'(1))
  have 2: "map_task w' (Path input_dir @ dirs @ [nm]) input_dir output_dir ext
      = Inr ((str_of (Path input_dir @ dirs @ [nm]),
              str_of (Path output_dir @ dirs @ [name_stem nm @ ext])), w')"
    by (simp add: map_task_under [OF names ext] mkdir_parents_existing [OF w'(2)])
  have 3: "CHR ''.'' \<notin> set x \<longrightarrow> name_suffix (name_stem nm @ ext) = ext"
    using name_suffix_stem_ext [OF name_stem_nonempty [OF names(2)] ext(2)] ext(1) by simp
  have 4: "\<forall>stem e. nm = stem @ CHR ''.'' # e \<and> stem \<noteq> [] \<and> e \<noteq> [] \<and> CHR ''.'' \<notin> set e
      \<longrightarrow> name_stem nm = stem"
    using name_stem_stem_ext by blast
  from 1 2 3 4 w'(2,3) show ?thesis by blast
qed

theorem task_mapping_mirrors_relative_path_witness:
  "\<exists>w'. map_task example_world (Path ''/a/b/c.heic'') ''/a'' ''/out'' ''.png''
           = Inr ((''/a/b/c.heic'', ''/out/b/c.png''), w')
        \<and> stat w' (Path ''/out/b'') = Some Dir
        \<and> map_task w' (Path ''/a/b/c.heic'') ''/a'' ''/out'' ''.png''
           = Inr ((''/a/b/c.heic'', ''/out/b/c.png''), w')"
proof -
  have names: "\<forall>c\<in>set [''b'']. CHR ''/'' \<notin> set c" "''c.heic'' \<noteq> []" "CHR ''/'' \<notin> set ''c.heic''"
    by simp_all
  have ext: "''.png'' = CHR ''.'' # ''png''" "''png'' \<noteq> []" "CHR ''/'' \<notin> set ''png''"
    by simp_all
  from task_mapping_mirrors_relative_path [OF names ext example_clear, of "''/a''"]
  show ?thesis
    unfolding example_paths example_stem by blast
qed


section \<open>Enumeration and the size totals\<close>


lemma glob_rec_D:
  assumes "p \<in> set (glob_rec w base ext)"
  shows "\<exists>k. (p, k) \<in> set (entries w)" and "anchor p = anchor base"
    and "strict_prefix base p" and "suffix ext (last p)"
  using assms by (auto simp: glob_rec_def)



lemma map_task_Inr:
  assumes "map_task w f input_dir output_dir ext = Inr (t, w')"
  shows "fst t = str_of f" and "st_size w' = st_size w"
  using assms
  by (auto simp: map_task_def Let_def split: sum.splits dest: mkdir_parents_st_size)

lemma getsize_Inr: "getsize w p = Inr n \<Longrightarrow> n = st_size w p"
  by (auto simp: getsize_def split: option.splits)

lemma optimization_tasks_result:
  assumes "optimization_tasks w ps input_dir output_dir tasks tot = Inr (tasks', tot', w')"
  shows "map fst tasks' = map fst tasks @ map str_of ps
       \<and> tot' = foldl fadd tot (map (\<lambda>p. truediv (int (st_size w p)) (1024 * 1024)) ps)
       \<and> st_size w' = st_size w"
  using assms
proof (induction ps arbitrary: w tasks tot)
  case Nil
  then show ?case by simp
next
  case (Cons p ps)
  from Cons.prems obtain t w1 n where
    mt: "map_task w p input_dir output_dir ''.jpg'' = Inr (t, w1)"
    and gs: "getsize w1 p = Inr n"
    and rest: "optimization_tasks w1 ps input_dir output_dir (tasks @ [t])
                 (fadd tot (truediv (int n) (1024 * 1024))) = Inr (tasks', tot', w')"
    by (auto split: sum.splits)
  note m = map_task_Inr [OF mt]
  from getsize_Inr [OF gs] m(2) have n: "n = st_size w p" by simp
  from Cons.IH [OF rest] m n show ?case by simp
qed

lemma optimization_pool_total:
  assumes "optimization_pool func completed (s, f, tot) = Inr (s', f', tot')"
  shows "tot' = foldl fadd tot
           (map snd (filter fst (map (\<lambda>t. projr (func (fst t) (snd t))) completed)))"
  using assms
proof (induction completed arbitrary: s f tot)
  case Nil
  then show ?case by simp
next
  case (Cons t completed)
  obtain i out where t: "t = (i, out)" by (cases t)
  from Cons.prems obtain ok m where r: "func i out = Inr (ok, m)"
    by (auto simp: t split: sum.splits)
  show ?case
  proof (cases ok)
    case True
    with Cons.prems have "optimization_pool func completed (s + 1, f, fadd tot m) = Inr (s', f', tot')"
      by (simp add: t r)
    from Cons.IH [OF this] True show ?thesis by (simp add: t r)
  next
    case False
    with Cons.prems have "optimization_pool func completed (s, f + 1, tot) = Inr (s', f', tot')"
      by (simp add: t r)
    from Cons.IH [OF this] False show ?thesis by (simp add: t r)
  qed
qed

lemma fl_MB_exact:
  assumes "0 \<le> k" and "k < 2 ^ 53"
  shows "fl (of_int k / 1048576) = of_int k / 1048576"
  using truediv_MB_exact [OF assms] by (simp add: truediv_def)

lemma foldl_fadd_exact:
  assumes "a + sum_list ns < 2 ^ 53"
  shows "foldl fadd (of_nat a / 1048576) (map (\<lambda>n. truediv (int n) (1024 * 1024)) ns)
       = of_nat (a + sum_list ns) / 1048576"
  using assms
proof (induction ns arbitrary: a)
  case Nil
  then show ?case by simp
next
  case (Cons n ns)
  from Cons.prems have n: "n < 2 ^ 53" and an: "a + n < 2 ^ 53" by simp_all
  have "int (a + n) < 2 ^ 53" using an by (metis of_nat_less_iff of_nat_numeral of_nat_power)
  then have ex: "fl (of_int (int (a + n)) / 1048576) = of_int (int (a + n)) / 1048576"
    by (intro fl_MB_exact) simp_all
  have t: "truediv (int n) (1024 * 1024) = of_nat n / 1048576"
    by (rule size_mb_exact [OF n])
  have s: "(of_nat a / 1048576 + of_nat n / 1048576 :: rat) = of_int (int (a + n)) / 1048576"
    by (simp add: add_divide_distrib)
  have "fadd (of_nat a / 1048576) (truediv (int n) (1024 * 1024))
      = fl (of_nat a / 1048576 + of_nat n / 1048576)"
    unfolding fadd_def t ..
  also have "\<dots> = of_int (int (a + n)) / 1048576" unfolding s by (rule ex)
  also have "\<dots> = of_nat (a + n) / 1048576" by simp
  finally have step: "fadd (of_nat a / 1048576) (truediv (int n) (1024 * 1024))
      = of_nat (a + n) / 1048576" .
  from Cons.prems have lt: "(a + n) + sum_list ns < 2 ^ 53" by simp
  have "foldl fadd (of_nat a / 1048576) (map (\<lambda>n. truediv (int n) (1024 * 1024)) (n # ns))
      = foldl fadd (fadd (of_nat a / 1048576) (truediv (int n) (1024 * 1024)))
          (map (\<lambda>n. truediv (int n) (1024 * 1024)) ns)"
    by (simp only: list.map foldl.simps)
  also have "\<dots> = of_nat ((a + n) + sum_list ns) / 1048576"
    unfolding step by (rule Cons.IH [OF lt])
  also have "(a + n) + sum_list ns = a + sum_list (n # ns)" by simp
  finally show ?case .
qed

lemma clear_from_output_free:
  assumes "output_free w P"
  shows "clear_of_files w (P @ ds)"
  unfolding clear_of_files_def
proof
  fix q assume "q \<in> set (prefixes (P @ ds))"
  then have "prefix q (P @ ds)" by (simp add: in_set_prefixes)
  then have "prefix q P \<or> prefix P q" by (auto simp: prefix_append)
  with assms show "stat w q \<noteq> Some File" unfolding output_free_def by blast
qed

lemma extends_output_free:
  assumes "extends w w'" and "output_free w P"
  shows "output_free w' P"
  using assms unfolding extends_def output_free_def by blast

lemma extends_stat:
  assumes "extends w w'" and "stat w p \<noteq> None"
  shows "stat w' p \<noteq> None"
proof -
  from assms(2) obtain k where "stat w p = Some k" by blast
  with assms(1) have "stat w' p = Some k" unfolding extends_def by blast
  then show ?thesis by simp
qed

lemma getsize_existing: "stat w p \<noteq> None \<Longrightarrow> getsize w p = Inr (st_size w p)"
  by (cases "stat w p") (simp_all add: getsize_def)

lemma map_task_returns:
  assumes names: "proper_names rel" and free: "output_free w (Path output_dir)"
    and ext: "ext = CHR ''.'' # x" "x \<noteq> []" "CHR ''/'' \<notin> set x"
  shows "\<exists>t w'. map_task w (Path input_dir @ rel) input_dir output_dir ext = Inr (t, w') \<and> extends w w'"
proof -
  from names have ne: "rel \<noteq> []" by (simp add: proper_names_def)
  then have rel: "rel = butlast rel @ [last rel]" by simp
  from names have n1: "\<forall>c\<in>set (butlast rel). CHR ''/'' \<notin> set c"
    by (auto simp: proper_names_def dest: in_set_butlastD)
  from names ne have n2: "last rel \<noteq> []" "CHR ''/'' \<notin> set (last rel)"
    by (auto simp: proper_names_def)
  from mkdir_parents_makes [OF clear_from_output_free [OF free, of "butlast rel"]]
  obtain w' where w': "mkdir_parents w (Path output_dir @ butlast rel) = Inr w'" "extends w w'"
    by blast
  have "map_task w (Path input_dir @ butlast rel @ [last rel]) input_dir output_dir ext
      = Inr ((str_of (Path input_dir @ butlast rel @ [last rel]),
              str_of (Path output_dir @ butlast rel @ [name_stem (last rel) @ ext])), w')"
    by (simp add: map_task_under [OF n1 n2 ext] w'(1))
  with w'(2) show ?thesis by (metis rel)
qed

lemma optimization_tasks_returns:
  assumes "\<forall>p\<in>set ps. stat w p \<noteq> None \<and> (\<exists>rel. p = Path input_dir @ rel \<and> proper_names rel)"
    and "output_free w (Path output_dir)"
  shows "\<exists>tasks' tot' w'. optimization_tasks w ps input_dir output_dir tasks tot = Inr (tasks', tot', w')"
  using assms
proof (induction ps arbitrary: w tasks tot)
  case Nil
  then show ?case by simp
next
  case (Cons p ps)
  from Cons.prems(1) obtain rel where p: "p = Path input_dir @ rel" and names: "proper_names rel"
    and ex: "stat w p \<noteq> None"
    by auto
  have ext: "''.jpg'' = CHR ''.'' # ''jpg''" "''jpg'' \<noteq> []" "CHR ''/'' \<notin> set ''jpg''" by simp_all
  from map_task_returns [OF names Cons.prems(2) ext, of input_dir]
  obtain t w1 where mt: "map_task w p input_dir output_dir ''.jpg'' = Inr (t, w1)" and e: "extends w w1"
    unfolding p by blast
  have gs: "getsize w1 p = Inr (st_size w1 p)"
    by (rule getsize_existing [OF extends_stat [OF e ex]])
  have rest: "\<forall>p\<in>set ps. stat w1 p \<noteq> None \<and> (\<exists>rel. p = Path input_dir @ rel \<and> proper_names rel)"
    using Cons.prems(1) extends_stat [OF e] by auto
  from Cons.IH [OF rest extends_output_free [OF e Cons.prems(2)]]
  show ?case by (simp add: mt gs)
qed

lemma optimization_pool_returns:
  assumes "raises_only_Exception env"
  shows "\<exists>r. optimization_pool (\<lambda>i out. fst (optimize_png env w i out m)) completed acc = Inr r"
proof -
  obtain s f tot where acc: "acc = (s, f, tot)" by (cases acc)
  have "\<forall>t\<in>set completed. \<exists>r. fst (optimize_png env w (fst t) (snd t) m) = Inr r"
    by (simp add: optimize_result [OF assms])
  from optimization_pool_counts [OF this, of s f tot] show ?thesis
    unfolding acc by blast
qed

lemma process_optimization_returns:
  assumes env: "raises_only_Exception env"
    and found: "glob_rec w (Path input_dir) ''.png'' \<noteq> []"
    and names: "\<forall>p\<in>set (glob_rec w (Path input_dir) ''.png'').
                  proper_names (drop (length (Path input_dir)) p)"
    and free: "output_free w (Path output_dir)"
  shows "\<exists>st. process_optimization env w input_dir output_dir max_size_mb as_completed = Inr (Some st)"
proof -
  let ?ps = "glob_rec w (Path input_dir) ''.png''"
  have "\<forall>p\<in>set ?ps. stat w p \<noteq> None \<and> (\<exists>rel. p = Path input_dir @ rel \<and> proper_names rel)"
  proof
    fix p assume p: "p \<in> set ?ps"
    from glob_rec_D(1,3) [OF p]
    obtain k where k: "(p, k) \<in> set (entries w)" and pre: "strict_prefix (Path input_dir) p"
      by blast
    from k have "map_of (entries w) p \<noteq> None"
      by (metis map_of_eq_None_iff fst_conv image_eqI)
    then have "stat w p \<noteq> None" by (simp add: stat_def)
    moreover from pre have "p = Path input_dir @ drop (length (Path input_dir)) p"
      by (auto simp: strict_prefix_def prefix_def)
    ultimately show "stat w p \<noteq> None \<and> (\<exists>rel. p = Path input_dir @ rel \<and> proper_names rel)"
      using names p by blast
  qed
  from optimization_tasks_returns [OF this free, of "[]" 0]
  obtain tasks tot w' where tk: "optimization_tasks w ?ps input_dir output_dir [] 0 = Inr (tasks, tot, w')"
    by blast
  from optimization_pool_returns [OF env, of w' max_size_mb "as_completed tasks" "(0, 0, 0)"]
  obtain r where "optimization_pool (\<lambda>i out. fst (optimize_png env w' i out max_size_mb))
      (as_completed tasks) (0, 0, 0) = Inr r"
    by blast
  with tk found show ?thesis
    by (cases r) (simp add: process_optimization_def Let_def)
qed

lemma size_totals_of_run:
  assumes run: "process_optimization env w input_dir output_dir max_size_mb as_completed = Inr (Some st)"
  shows "stats_original_size st
           = foldl fadd 0 (map (\<lambda>p. truediv (int (st_size w p)) (1024 * 1024))
                               (glob_rec w (Path input_dir) ''.png''))
       \<and> (sum_list (map (st_size w) (glob_rec w (Path input_dir) ''.png'')) < 2 ^ 53
            \<longrightarrow> stats_original_size st
                = of_nat (sum_list (map (st_size w) (glob_rec w (Path input_dir) ''.png''))) / 1048576)
       \<and> (\<exists>tasks w'.
             optimization_tasks w (glob_rec w (Path input_dir) ''.png'') input_dir output_dir [] 0
               = Inr (tasks, stats_original_size st, w')
             \<and> stats_optimized_size st
                 = foldl fadd 0
                     (map snd (filter fst
                        (map (\<lambda>t. projr (fst (optimize_png env w' (fst t) (snd t) max_size_mb)))
                             (as_completed tasks)))))
       \<and> stats_reduction st
           = (if stats_original_size st > 0
              then Some (fmulf (fdiv (fsub (stats_original_size st) (stats_optimized_size st))
                                     (stats_original_size st)) 100)
              else None)"
proof -
  let ?ps = "glob_rec w (Path input_dir) ''.png''"
  from run obtain tasks tot w' s f opt where
    tk: "optimization_tasks w ?ps input_dir output_dir [] 0 = Inr (tasks, tot, w')"
    and pool: "optimization_pool (\<lambda>i out. fst (optimize_png env w' i out max_size_mb))
                 (as_completed tasks) (0, 0, 0) = Inr (s, f, opt)"
    and st: "st = \<lparr>stats_success = s, stats_fail = f, stats_original_size = tot,
                   stats_optimized_size = opt,
                   stats_reduction = (if tot > 0 then Some (fmulf (fdiv (fsub tot opt) tot) 100)
                                      else None)\<rparr>"
    by (auto simp: process_optimization_def Let_def split: if_splits sum.splits)
  from optimization_tasks_result [OF tk]
  have tot: "tot = foldl fadd 0 (map (\<lambda>p. truediv (int (st_size w p)) (1024 * 1024)) ?ps)"
    by simp
  have exact: "sum_list (map (st_size w) ?ps) < 2 ^ 53
      \<longrightarrow> tot = of_nat (sum_list (map (st_size w) ?ps)) / 1048576"
  proof
    assume "sum_list (map (st_size w) ?ps) < 2 ^ 53"
    then have "0 + sum_list (map (st_size w) ?ps) < 2 ^ 53" by simp
    from foldl_fadd_exact [OF this] show "tot = of_nat (sum_list (map (st_size w) ?ps)) / 1048576"
      by (simp add: tot comp_def)
  qed
  note opt = optimization_pool_total [OF pool]
  from tot exact tk opt show ?thesis
    unfolding st by (simp del: foldl_map)
qed

lemma example_glob:
  "glob_rec example_world (Path ''/a'') ''.png'' = [[''/'', ''a'', ''y.png''], [''/'', ''a'', ''bad.png'']]"
  by code_simp

lemma example_output_free: "output_free example_world (Path ''/out'')"
  by (auto simp: output_free_def stat_def example_world_def Path_def Let_def tail_of_def anchor_def
      split: if_splits)

lemma example_names:
  "\<forall>p\<in>set (glob_rec example_world (Path ''/a'') ''.png''). proper_names (drop (length (Path ''/a'')) p)"
  unfolding example_glob by (simp add: proper_names_def Path_def Let_def)

text \<open>
  C10. In a run of process_optimization that reports totals, the original total is the
  float sum, in enumeration order, of the sizes in MB of all enumerated PNG files, whatever
  their optimization does later (it is the exact sum of the byte sizes over \<open>2^20\<close> when
  that sum is below \<open>2^53\<close>); the optimized total is the float sum, in completion order, of
  the sizes returned by the tasks whose result is a success, failed results adding nothing;
  and the reduction printed is computed from these two totals. Such a run exists whenever
  the codecs raise nothing outside \<^verbatim>\<open>Exception\<close>, some PNG is found, the enumerated paths
  are made of proper names and no regular file lies in the way of the output directories.
\<close>

theorem size_totals_have_different_scopes:
  "(process_optimization env w input_dir output_dir max_size_mb as_completed = Inr (Some st) \<longrightarrow>
      stats_original_size st
        = foldl fadd 0 (map (\<lambda>p. truediv (int (st_size w p)) (1024 * 1024))
                            (glob_rec w (Path input_dir) ''.png''))
      \<and> (sum_list (map (st_size w) (glob_rec w (Path input_dir) ''.png'')) < 2 ^ 53
           \<longrightarrow> stats_original_size st
               = of_nat (sum_list (map (st_size w) (glob_rec w (Path input_dir) ''.png''))) / 1048576)
      \<and> (\<exists>tasks w'.
            optimization_tasks w (glob_rec w (Path input_dir) ''.png'') input_dir output_dir [] 0
              = Inr (tasks, stats_original_size st, w')
            \<and> stats_optimized_size st
                = foldl fadd 0
                    (map snd (filter fst
                       (map (\<lambda>t. projr (fst (optimize_png env w' (fst t) (snd t) max_size_mb)))
                            (as_completed tasks)))))
      \<and> stats_reduction st
          = (if stats_original_size st > 0
             then Some (fmulf (fdiv (fsub (stats_original_size st) (stats_optimized_size st))
                                    (stats_original_size st)) 100)
             else None))
   \<and> (raises_only_Exception env
        \<and> glob_rec w (Path input_dir) ''.png'' \<noteq> []
        \<and> (\<forall>p\<in>set (glob_rec w (Path input_dir) ''.png''). proper_names (drop (length (Path input_dir)) p))
        \<and> output_free w (Path output_dir)
      \<longrightarrow> (\<exists>st'. process_optimization env w input_dir output_dir max_size_mb as_completed
                  = Inr (Some st')))"
  using size_totals_of_run [of env w input_dir output_dir max_size_mb as_completed st]
    process_optimization_returns [of env w input_dir output_dir max_size_mb as_completed]
  by blast

theorem size_totals_have_different_scopes_witness:
  "\<exists>st. process_optimization example_codecs example_world ''/a'' ''/out'' 15 id = Inr (Some st)
       \<and> stats_original_size st = 4"
proof -
  note t = size_totals_have_different_scopes
      [of example_codecs example_world "''/a''" "''/out''" 15 id]
  have "glob_rec example_world (Path ''/a'') ''.png'' \<noteq> []" unfolding example_glob by simp
  with t example_codecs_raise_only_Exception example_names example_output_free
  obtain st where st: "process_optimization example_codecs example_world ''/a'' ''/out'' 15 id = Inr (Some st)"
    by blast
  have "sum_list (map (st_size example_world) (glob_rec example_world (Path ''/a'') ''.png'')) = 4194304"
    unfolding example_glob by (simp add: example_world_def)
  with t [of st] st have "stats_original_size st = 4" by simp
  with st show ?thesis by blast
qed







section \<open>Downscaling\<close>











text \<open>A whole quotient missed from below: \<open>2105 * 4000 / 4210 = 2000\<close>.\<close>

lemma downscale_whole_quotient_can_fall_short:
  "resize_dims (4210, 2105) = Some (4000, 1999)"
  by code_simp

end
